theory Spec2Isabelle
  imports Main "HOL-Library.Sublist"
begin

section \<open>Values shared by the sandbox, the decoder and the worker\<close>

text \<open>
  Everything that crosses the wire or a tool boundary is a JSON value. A field that is
  absent from an object (JavaScript's \<open>undefined\<close>) is \<open>None\<close> at the lookup.
  Numbers are restricted to integers; no function below does arithmetic on them.
\<close>

datatype json =
    JNull
  | JBool bool
  | JNum int
  | JStr string
  | JArr "json list"
  | JObj "(string \<times> json) list"

text \<open>
  A thrown value: an \<open>Error\<close> instance with its message, or any other value
  (\<open>error instanceof Error\<close> is false for it).
\<close>

datatype exn = Error string | NonError

fun field :: "json \<Rightarrow> string \<Rightarrow> json option" where
  "field (JObj kvs) k = map_of kvs k"
| "field _ k = None"

fun truthy :: "json \<Rightarrow> bool" where
  "truthy JNull = False"
| "truthy (JBool b) = b"
| "truthy (JNum n) = (n \<noteq> 0)"
| "truthy (JStr s) = (s \<noteq> [])"
| "truthy (JArr xs) = True"
| "truthy (JObj kvs) = True"

fun nat_digits :: "nat \<Rightarrow> string" where
  "nat_digits n =
     (if n < 10 then [''0123456789'' ! n]
      else nat_digits (n div 10) @ [''0123456789'' ! (n mod 10)])"

definition int_string :: "int \<Rightarrow> string" where
  "int_string i = (if i < 0 then CHR ''-'' # nat_digits (nat (- i)) else nat_digits (nat i))"

fun join_with :: "string \<Rightarrow> string list \<Rightarrow> string" where
  "join_with d [] = []"
| "join_with d [s] = s"
| "join_with d (s # t # ss) = s @ d @ join_with d (t # ss)"

text \<open>\<open>String(v)\<close>: the coercion the tools apply to their arguments.\<close>

fun js_String :: "json \<Rightarrow> string" where
  "js_String JNull = ''null''"
| "js_String (JBool b) = (if b then ''true'' else ''false'')"
| "js_String (JNum n) = int_string n"
| "js_String (JStr s) = s"
| "js_String (JArr xs) =
     join_with '','' (map (\<lambda>x. if x = JNull then [] else js_String x) xs)"
| "js_String (JObj kvs) = ''[object Object]''"

text \<open>\<open>String(args.k || dflt)\<close>.\<close>

definition arg_string :: "(string \<times> json) list \<Rightarrow> string \<Rightarrow> string \<Rightarrow> string" where
  "arg_string args k dflt =
     (case map_of args k of
        None \<Rightarrow> dflt
      | Some v \<Rightarrow> if truthy v then js_String v else dflt)"

subsection \<open>Strings\<close>

definition starts_with :: "string \<Rightarrow> string \<Rightarrow> bool" where
  "starts_with p s = (take (length p) s = p)"

definition is_ws :: "char \<Rightarrow> bool" where
  "is_ws c = (c \<in> {CHR '' '', CHR 0x09, CHR 0x0A, CHR 0x0B, CHR 0x0C, CHR 0x0D})"

text \<open>\<open>s.trim()\<close>, on the white space of ASCII.\<close>

definition trim :: "string \<Rightarrow> string" where
  "trim s = rev (dropWhile is_ws (rev (dropWhile is_ws s)))"

text \<open>
  \<open>s.split(c)\<close> for a one-character separator: never empty, the last element is the
  text after the last separator.
\<close>

fun split_on :: "char \<Rightarrow> string \<Rightarrow> string list" where
  "split_on c [] = [[]]"
| "split_on c (x # xs) =
     (if x = c then [] # split_on c xs
      else (case split_on c xs of
              [] \<Rightarrow> [[x]]
            | l # ls \<Rightarrow> (x # l) # ls))"

section \<open>Tool sandbox (src/tools.ts)\<close>

subsection \<open>POSIX paths (node:path)\<close>

text \<open>
  \<open>path.resolve\<close> and \<open>path.relative\<close> belong to the runtime, not to the repository.
  They are modelled on segment lists as the POSIX implementation behaves for an absolute
  root: empty and \<open>.\<close> segments vanish, \<open>..\<close> removes the segment before it and is
  dropped at the root.
\<close>

fun normalizeString :: "string list \<Rightarrow> string list \<Rightarrow> string list" where
  "normalizeString res [] = res"
| "normalizeString res (seg # segs) =
     (if seg = [] \<or> seg = ''.'' then normalizeString res segs
      else if seg = ''..'' then normalizeString (butlast res) segs
      else normalizeString (res @ [seg]) segs)"

definition segments :: "string \<Rightarrow> string list" where
  "segments p = normalizeString [] (split_on CHR ''/'' p)"

definition isAbsolute :: "string \<Rightarrow> bool" where
  "isAbsolute p = (p \<noteq> [] \<and> hd p = CHR ''/'')"

definition path_resolve :: "string \<Rightarrow> string \<Rightarrow> string" where
  "path_resolve root p =
     CHR ''/'' # join_with ''/'' (segments (if isAbsolute p then p else root @ ''/'' @ p))"

fun drop_common :: "string list \<Rightarrow> string list \<Rightarrow> string list \<times> string list" where
  "drop_common (a # as) (b # bs) = (if a = b then drop_common as bs else (a # as, b # bs))"
| "drop_common as bs = (as, bs)"

definition path_relative :: "string \<Rightarrow> string \<Rightarrow> string" where
  "path_relative from to =
     (case drop_common (segments from) (segments to) of
        (up, down) \<Rightarrow> join_with ''/'' (replicate (length up) ''..'' @ down))"

subsection \<open>State and collaborators\<close>

text \<open>
  The part of the process state the tools touch: the regular files of the machine
  (absolute path to UTF-8 content; a path absent from the map does not exist, and
  directories and links are not modelled), the argument vectors of the subprocesses
  spawned so far, the session's read set, and the module-level cache of allowed tool
  names per base URL (the cached promise: a rejected fetch stays cached). The optional
  language-server client of the context is left out: the worker never supplies one and
  its failures are swallowed.
\<close>

record sandbox =
  files :: "string \<rightharpoonup> string"
  spawned :: "string list list"
  readSet :: "string set"
  allowedToolsCache :: "string \<rightharpoonup> (exn + string list)"

record tool_ctx =
  rootDir :: string
  ctx_baseUrl :: string
  ctx_token :: string
  ctx_appId :: string

text \<open>
  What the sandbox calls outside the repository's own code: the file write of the
  platform (which paths it refuses and with which message), the manifest endpoint,
  \<open>git apply\<close>, the scratch directory and the \<open>diff -u\<close> of \<open>createUnifiedDiff\<close>,
  the glob scan, \<open>rg\<close>, \<open>git status\<close>, and the commit and deploy endpoints. A
  subprocess yields its exit code, standard output and standard error, or the spawn
  itself raises. For the diff, \<open>Inl\<close> is a raise before the process runs (creating the
  scratch directory, writing the two texts, the spawn); otherwise the process printed
  its output, and removing the scratch directory afterwards may still raise.
\<close>

record platform =
  write_refused :: "string \<rightharpoonup> string"
  fetchToolManifest :: "string \<Rightarrow> string \<Rightarrow> exn + string list"
  git_apply :: "string \<Rightarrow> string \<Rightarrow> (string \<rightharpoonup> string) \<Rightarrow> exn + (nat \<times> string \<times> (string \<rightharpoonup> string))"
  diff_u :: "string \<Rightarrow> string \<Rightarrow> string \<Rightarrow> exn + (string \<times> exn option)"
  glob_scan :: "string \<Rightarrow> string \<Rightarrow> (string \<rightharpoonup> string) \<Rightarrow> exn + string list"
  rg :: "string \<Rightarrow> string \<Rightarrow> string \<Rightarrow> (string \<rightharpoonup> string) \<Rightarrow> exn + (nat \<times> string \<times> string)"
  git_status :: "string \<Rightarrow> (string \<rightharpoonup> string) \<Rightarrow> exn + (nat \<times> string \<times> string)"
  commitFiles :: "string \<Rightarrow> string \<Rightarrow> string \<Rightarrow> (string \<times> string) list \<Rightarrow> string \<Rightarrow> exn + string"
  deployApp :: "string \<Rightarrow> string \<Rightarrow> string \<Rightarrow> exn + string"

record tool_result =
  r_ok :: bool
  r_output :: "json option"
  r_error :: "string option"

text \<open>The message of the runtime for a missing file, with the path in single quotes.\<close>

definition enoent :: "string \<Rightarrow> exn" where
  "enoent p = Error (''ENOENT: no such file or directory, open '' @ [CHR 0x27] @ p @ [CHR 0x27])"

definition fs_readFile :: "'a sandbox_scheme \<Rightarrow> string \<Rightarrow> exn + string" where
  "fs_readFile s p =
     (case files s p of
        None \<Rightarrow> Inl (enoent p)
      | Some c \<Rightarrow> Inr c)"

definition fs_exists :: "'a sandbox_scheme \<Rightarrow> string \<Rightarrow> bool" where
  "fs_exists s p = (files s p \<noteq> None)"

definition fs_writeFile ::
  "platform \<Rightarrow> string \<Rightarrow> string \<Rightarrow> 'a sandbox_scheme \<Rightarrow> exn option \<times> 'a sandbox_scheme" where
  "fs_writeFile pf p c s =
     (case write_refused pf p of
        Some m \<Rightarrow> (Some (Error m), s)
      | None \<Rightarrow> (None, s\<lparr>files := (files s)(p \<mapsto> c)\<rparr>))"

subsection \<open>The operations\<close>

definition path_violation :: exn where
  "path_violation = Error ''Path is outside workspace''"

definition read_before_write :: exn where
  "read_before_write = Error ''File must be read before write/patch''"

definition resolvePath :: "string \<Rightarrow> string \<Rightarrow> exn + string" where
  "resolvePath root filePath =
     (let resolved = path_resolve root filePath;
          relative = path_relative root resolved
      in if starts_with ''..'' relative \<or> isAbsolute relative
         then Inl path_violation
         else Inr resolved)"

definition ensureReadBeforeWrite :: "string set \<Rightarrow> string \<Rightarrow> exn option" where
  "ensureReadBeforeWrite rs filePath =
     (if filePath \<notin> rs then Some read_before_write else None)"

definition readFileTool ::
  "tool_ctx \<Rightarrow> (string \<times> json) list \<Rightarrow> 'a sandbox_scheme \<Rightarrow> (exn + json) \<times> 'a sandbox_scheme" where
  "readFileTool ctx args s =
     (let filePath = arg_string args ''path'' [] in
      if filePath = [] then (Inl (Error ''path is required''), s)
      else case resolvePath (rootDir ctx) filePath of
        Inl e \<Rightarrow> (Inl e, s)
      | Inr resolved \<Rightarrow>
          (case fs_readFile s resolved of
             Inl e \<Rightarrow> (Inl e, s)
           | Inr content \<Rightarrow>
               (Inr (JObj [(''path'', JStr filePath), (''content'', JStr content)]),
                s\<lparr>readSet := insert resolved (readSet s)\<rparr>)))"

text \<open>
  \<open>createUnifiedDiff\<close> writes both texts to a scratch directory of its own, runs
  \<open>diff -u\<close> with the labels \<open>a/path\<close> and \<open>b/path\<close>, removes the directory and
  returns the trimmed output. Each of these steps can raise; none of them is guarded.
\<close>

definition diff_argv :: "string \<Rightarrow> string list" where
  "diff_argv filePath =
     [''diff'', ''-u'', ''--label'', ''a/'' @ filePath, ''--label'', ''b/'' @ filePath,
      ''before'', ''after'']"

definition createUnifiedDiff ::
  "platform \<Rightarrow> string \<Rightarrow> string \<Rightarrow> string \<Rightarrow> 'a sandbox_scheme \<Rightarrow>
   (exn + string) \<times> 'a sandbox_scheme" where
  "createUnifiedDiff pf before after filePath s =
     (case diff_u pf before after filePath of
        Inl e \<Rightarrow> (Inl e, s)
      | Inr (stdout, removed) \<Rightarrow>
          (case removed of
             Some e \<Rightarrow> (Inl e, s\<lparr>spawned := spawned s @ [diff_argv filePath]\<rparr>)
           | None \<Rightarrow> (Inr (trim stdout), s\<lparr>spawned := spawned s @ [diff_argv filePath]\<rparr>)))"

text \<open>
  Lines 160 to 168 of \<open>writeFileTool\<close>: whether the target exists, and if it does the
  read-before-write check and the previous content.
\<close>

definition previous_content :: "'a sandbox_scheme \<Rightarrow> string \<Rightarrow> exn + string" where
  "previous_content s resolved =
     (if fs_exists s resolved
      then (case ensureReadBeforeWrite (readSet s) resolved of
              Some e \<Rightarrow> Inl e
            | None \<Rightarrow> fs_readFile s resolved)
      else Inr [])"

definition write_output :: "string \<Rightarrow> bool \<Rightarrow> string \<Rightarrow> string \<Rightarrow> string \<Rightarrow> json" where
  "write_output filePath created d previous content =
     JObj [(''path'', JStr filePath), (''created'', JBool created), (''diff'', JStr d),
           (''before'', JStr previous), (''after'', JStr content)]"

definition writeFileTool ::
  "platform \<Rightarrow> tool_ctx \<Rightarrow> (string \<times> json) list \<Rightarrow> 'a sandbox_scheme \<Rightarrow>
   (exn + json) \<times> 'a sandbox_scheme" where
  "writeFileTool pf ctx args s =
     (let filePath = arg_string args ''path'' [];
          content = arg_string args ''content'' []
      in if filePath = [] then (Inl (Error ''path is required''), s)
      else case resolvePath (rootDir ctx) filePath of
        Inl e \<Rightarrow> (Inl e, s)
      | Inr resolved \<Rightarrow>
          (case previous_content s resolved of
             Inl e \<Rightarrow> (Inl e, s)
           | Inr previous \<Rightarrow>
               (case fs_writeFile pf resolved content s of
                  (Some e, s1) \<Rightarrow> (Inl e, s1)
                | (None, s1) \<Rightarrow>
                    (case createUnifiedDiff pf previous content filePath s1 of
                       (Inl e, s2) \<Rightarrow> (Inl e, s2)
                     | (Inr d, s2) \<Rightarrow>
                         (Inr (write_output filePath (\<not> fs_exists s resolved) d previous
                                 content), s2)))))"

fun parse_patch_lines :: "string list \<Rightarrow> string list" where
  "parse_patch_lines [] = []"
| "parse_patch_lines (line # rest) =
     (if starts_with ''+++ '' line \<and> starts_with ''b/'' (trim (drop 4 line))
      then drop 2 (trim (drop 4 line)) # parse_patch_lines rest
      else parse_patch_lines rest)"

definition parsePatchPaths :: "string \<Rightarrow> string list" where
  "parsePatchPaths patchText = parse_patch_lines (split_on CHR 0x0A patchText)"

text \<open>
  The first loop of \<open>applyPatchTool\<close>: for each touched path, in order, resolve it,
  demand that it was read, and keep its content in \<open>beforeMap\<close>. It only reads.
\<close>

fun capture_before ::
  "tool_ctx \<Rightarrow> 'a sandbox_scheme \<Rightarrow> string list \<Rightarrow> (string \<rightharpoonup> string) \<Rightarrow>
   exn + (string \<rightharpoonup> string)" where
  "capture_before ctx s [] beforeMap = Inr beforeMap"
| "capture_before ctx s (filePath # rest) beforeMap =
     (case resolvePath (rootDir ctx) filePath of
        Inl e \<Rightarrow> Inl e
      | Inr resolved \<Rightarrow>
          (case ensureReadBeforeWrite (readSet s) resolved of
             Some e \<Rightarrow> Inl e
           | None \<Rightarrow>
               (case fs_readFile s resolved of
                  Inl e \<Rightarrow> Inl e
                | Inr content \<Rightarrow> capture_before ctx s rest (beforeMap(filePath \<mapsto> content)))))"

definition before_of :: "(string \<rightharpoonup> string) \<Rightarrow> string \<Rightarrow> string" where
  "before_of beforeMap filePath = (case beforeMap filePath of None \<Rightarrow> [] | Some b \<Rightarrow> b)"

definition patched_file :: "string \<Rightarrow> string \<Rightarrow> string \<Rightarrow> string \<Rightarrow> json" where
  "patched_file filePath before after d =
     JObj [(''path'', JStr filePath), (''before'', JStr before), (''after'', JStr after),
           (''diff'', JStr d)]"

text \<open>The second loop: read each touched file again and diff it against its capture.\<close>

fun collect_after ::
  "platform \<Rightarrow> tool_ctx \<Rightarrow> (string \<rightharpoonup> string) \<Rightarrow> string list \<Rightarrow> json list \<Rightarrow>
   'a sandbox_scheme \<Rightarrow> (exn + json list) \<times> 'a sandbox_scheme" where
  "collect_after pf ctx beforeMap [] acc s = (Inr acc, s)"
| "collect_after pf ctx beforeMap (filePath # rest) acc s =
     (case resolvePath (rootDir ctx) filePath of
        Inl e \<Rightarrow> (Inl e, s)
      | Inr resolved \<Rightarrow>
          (case fs_readFile s resolved of
             Inl e \<Rightarrow> (Inl e, s)
           | Inr content \<Rightarrow>
               (case createUnifiedDiff pf (before_of beforeMap filePath) content filePath s of
                  (Inl e, s1) \<Rightarrow> (Inl e, s1)
                | (Inr d, s1) \<Rightarrow>
                    collect_after pf ctx beforeMap rest
                      (acc @ [patched_file filePath (before_of beforeMap filePath) content d])
                      s1)))"

definition git_apply_argv :: "string list" where
  "git_apply_argv = [''git'', ''apply'', ''--whitespace=nowarn'', ''-'']"

definition applyPatchTool ::
  "platform \<Rightarrow> tool_ctx \<Rightarrow> (string \<times> json) list \<Rightarrow> 'a sandbox_scheme \<Rightarrow>
   (exn + json) \<times> 'a sandbox_scheme" where
  "applyPatchTool pf ctx args s =
     (let patchText = arg_string args ''patch'' [] in
      if patchText = [] then (Inl (Error ''patch is required''), s)
      else case capture_before ctx s (parsePatchPaths patchText) Map.empty of
        Inl e \<Rightarrow> (Inl e, s)
      | Inr beforeMap \<Rightarrow>
          (case git_apply pf (rootDir ctx) patchText (files s) of
             Inl e \<Rightarrow> (Inl e, s)
           | Inr (code, stderr, files') \<Rightarrow>
               (let s1 = s\<lparr>files := files', spawned := spawned s @ [git_apply_argv]\<rparr> in
                if code \<noteq> 0
                then (Inl (Error (if stderr \<noteq> [] then stderr else ''git apply failed'')), s1)
                else case collect_after pf ctx beforeMap (parsePatchPaths patchText) [] s1 of
                  (Inl e, s2) \<Rightarrow> (Inl e, s2)
                | (Inr fl, s2) \<Rightarrow> (Inr (JObj [(''files'', JArr fl)]), s2))))"

definition listFilesTool ::
  "platform \<Rightarrow> tool_ctx \<Rightarrow> (string \<times> json) list \<Rightarrow> 'a sandbox_scheme \<Rightarrow>
   (exn + json) \<times> 'a sandbox_scheme" where
  "listFilesTool pf ctx args s =
     (let pattern = arg_string args ''pattern'' ''**/*'' in
      case glob_scan pf pattern (rootDir ctx) (files s) of
        Inl e \<Rightarrow> (Inl e, s)
      | Inr matches \<Rightarrow>
          (Inr (JObj [(''pattern'', JStr pattern), (''matches'', JArr (map JStr matches))]), s))"

definition grepTool ::
  "platform \<Rightarrow> tool_ctx \<Rightarrow> (string \<times> json) list \<Rightarrow> 'a sandbox_scheme \<Rightarrow>
   (exn + json) \<times> 'a sandbox_scheme" where
  "grepTool pf ctx args s =
     (let query = arg_string args ''query'' [];
          pattern = arg_string args ''pattern'' ''.''
      in if query = [] then (Inl (Error ''query is required''), s)
      else case rg pf query pattern (rootDir ctx) (files s) of
        Inl e \<Rightarrow> (Inl e, s)
      | Inr (exitCode, stdout, stderr) \<Rightarrow>
          (let s1 = s\<lparr>spawned := spawned s @ [[''rg'', query, pattern]]\<rparr> in
           if exitCode \<noteq> 0 \<and> exitCode \<noteq> 1
           then (Inl (Error (if stderr \<noteq> [] then stderr else ''rg failed'')), s1)
           else (Inr (JObj [(''query'', JStr query), (''pattern'', JStr pattern),
                            (''matches'', JStr (trim stdout))]), s1)))"

text \<open>\<open>path.join(rootDir, filePath)\<close>: no special case for an absolute second part.\<close>

definition path_join :: "string \<Rightarrow> string \<Rightarrow> string" where
  "path_join root p =
     (let joined = (if p = [] then root else root @ ''/'' @ p);
          segs = segments joined
      in CHR ''/'' # join_with ''/'' segs @
         (if segs \<noteq> [] \<and> joined \<noteq> [] \<and> last joined = CHR ''/'' then ''/'' else []))"

definition record_set :: "string \<Rightarrow> string \<Rightarrow> (string \<times> string) list \<Rightarrow> (string \<times> string) list" where
  "record_set k v kvs =
     (if k \<in> fst ` set kvs then map (\<lambda>(a, b). if a = k then (a, v) else (a, b)) kvs
      else kvs @ [(k, v)])"

fun collect_status_lines ::
  "tool_ctx \<Rightarrow> 'a sandbox_scheme \<Rightarrow> string list \<Rightarrow> (string \<times> string) list \<Rightarrow>
   exn + (string \<times> string) list" where
  "collect_status_lines ctx s [] acc = Inr acc"
| "collect_status_lines ctx s (line # rest) acc =
     (if trim line = [] then collect_status_lines ctx s rest acc
      else if CHR ''D'' \<in> set (take 2 line)
      then Inl (Error (''Deletion not supported: '' @ trim (drop 3 line)))
      else case fs_readFile s (path_join (rootDir ctx) (trim (drop 3 line))) of
        Inl e \<Rightarrow> Inl e
      | Inr content \<Rightarrow>
          collect_status_lines ctx s rest (record_set (trim (drop 3 line)) content acc))"

definition collectChangedFiles ::
  "platform \<Rightarrow> tool_ctx \<Rightarrow> 'a sandbox_scheme \<Rightarrow>
   (exn + (string \<times> string) list) \<times> 'a sandbox_scheme" where
  "collectChangedFiles pf ctx s =
     (case git_status pf (rootDir ctx) (files s) of
        Inl e \<Rightarrow> (Inl e, s)
      | Inr (code, stdout, stderr) \<Rightarrow>
          (let s1 = s\<lparr>spawned := spawned s @ [[''git'', ''status'', ''--porcelain'', ''-uall'']]\<rparr> in
           if code \<noteq> 0
           then (Inl (Error (if stderr \<noteq> [] then stderr else ''git status failed'')), s1)
           else case collect_status_lines ctx s1 (split_on CHR 0x0A stdout) [] of
             Inl e \<Rightarrow> (Inl e, s1)
           | Inr changed \<Rightarrow>
               if changed = [] then (Inl (Error ''No changes detected''), s1)
               else (Inr changed, s1)))"

definition deployTool ::
  "platform \<Rightarrow> tool_ctx \<Rightarrow> (string \<times> json) list \<Rightarrow> 'a sandbox_scheme \<Rightarrow>
   (exn + json) \<times> 'a sandbox_scheme" where
  "deployTool pf ctx args s =
     (let message = arg_string args ''message'' ''Deploy from TUI'' in
      case collectChangedFiles pf ctx s of
        (Inl e, s1) \<Rightarrow> (Inl e, s1)
      | (Inr changed, s1) \<Rightarrow>
          (case commitFiles pf (ctx_baseUrl ctx) (ctx_token ctx) (ctx_appId ctx) changed message of
             Inl e \<Rightarrow> (Inl e, s1)
           | Inr commitSha \<Rightarrow>
               (case deployApp pf (ctx_baseUrl ctx) (ctx_token ctx) (ctx_appId ctx) of
                  Inl e \<Rightarrow> (Inl e, s1)
                | Inr deploymentId \<Rightarrow>
                    (Inr (JObj [(''commitSha'', JStr commitSha),
                                (''deploymentId'', JStr deploymentId)]), s1))))"

subsection \<open>Dispatch\<close>

definition strip_slash :: "string \<Rightarrow> string" where
  "strip_slash u = (if u \<noteq> [] \<and> last u = CHR ''/'' then butlast u else u)"

definition getAllowedTools ::
  "platform \<Rightarrow> string \<Rightarrow> string \<Rightarrow> 'a sandbox_scheme \<Rightarrow>
   (exn + string list) \<times> 'a sandbox_scheme" where
  "getAllowedTools pf baseUrl token s =
     (case allowedToolsCache s (strip_slash baseUrl) of
        Some cached \<Rightarrow> (cached, s)
      | None \<Rightarrow>
          (fetchToolManifest pf baseUrl token,
           s\<lparr>allowedToolsCache :=
                (allowedToolsCache s)(strip_slash baseUrl \<mapsto> fetchToolManifest pf baseUrl token)\<rparr>))"

record tool_call =
  call_name :: string
  call_args :: "(string \<times> json) list option"

definition args_of :: "tool_call \<Rightarrow> (string \<times> json) list" where
  "args_of call = (case call_args call of None \<Rightarrow> [] | Some a \<Rightarrow> a)"

definition succeeded ::
  "(exn + json) \<times> 's \<Rightarrow> (exn + tool_result) \<times> 's" where
  "succeeded r =
     (case r of
        (Inl e, s) \<Rightarrow> (Inl e, s)
      | (Inr v, s) \<Rightarrow> (Inr \<lparr>r_ok = True, r_output = Some v, r_error = None\<rparr>, s))"

definition failed :: "string \<Rightarrow> tool_result" where
  "failed m = \<lparr>r_ok = False, r_output = None, r_error = Some m\<rparr>"

text \<open>The body of the \<open>try\<close> block of \<open>executeLocalTool\<close>; \<open>Inl\<close> is a raise inside it.\<close>

definition executeLocalTool_try ::
  "platform \<Rightarrow> tool_call \<Rightarrow> tool_ctx \<Rightarrow> 'a sandbox_scheme \<Rightarrow>
   (exn + tool_result) \<times> 'a sandbox_scheme" where
  "executeLocalTool_try pf call ctx s =
     (case getAllowedTools pf (ctx_baseUrl ctx) (ctx_token ctx) s of
        (Inl e, s1) \<Rightarrow> (Inl e, s1)
      | (Inr allowedTools, s1) \<Rightarrow>
          if call_name call \<notin> set allowedTools
          then (Inr (failed (''Tool not in manifest: '' @ call_name call)), s1)
          else if call_name call = ''read_file'' then succeeded (readFileTool ctx (args_of call) s1)
          else if call_name call = ''list_files'' then succeeded (listFilesTool pf ctx (args_of call) s1)
          else if call_name call = ''grep'' then succeeded (grepTool pf ctx (args_of call) s1)
          else if call_name call = ''apply_patch'' then succeeded (applyPatchTool pf ctx (args_of call) s1)
          else if call_name call = ''write_file'' then succeeded (writeFileTool pf ctx (args_of call) s1)
          else if call_name call = ''deploy'' then succeeded (deployTool pf ctx (args_of call) s1)
          else (Inr (failed (''Unknown tool: '' @ call_name call)), s1))"

definition error_message :: "exn \<Rightarrow> string \<Rightarrow> string" where
  "error_message e dflt = (case e of Error m \<Rightarrow> m | NonError \<Rightarrow> dflt)"

text \<open>
  \<open>executeLocalTool\<close>: the \<open>try\<close> block with its \<open>catch\<close>. The result type still has
  the \<open>Inl\<close> of a rejected promise, so that "never raises" is a statement to prove.
\<close>

definition executeLocalTool ::
  "platform \<Rightarrow> tool_call \<Rightarrow> tool_ctx \<Rightarrow> 'a sandbox_scheme \<Rightarrow>
   (exn + tool_result) \<times> 'a sandbox_scheme" where
  "executeLocalTool pf call ctx s =
     (case executeLocalTool_try pf call ctx s of
        (Inl e, s1) \<Rightarrow> (Inr (failed (error_message e ''Tool failed'')), s1)
      | (Inr r, s1) \<Rightarrow> (Inr r, s1))"

subsection \<open>Branches of the tools\<close>

lemma writeFileTool_no_path:
  "arg_string args ''path'' [] = [] \<Longrightarrow>
   writeFileTool pf ctx args s = (Inl (Error ''path is required''), s)"
  by (simp add: writeFileTool_def)

lemma writeFileTool_unresolved:
  "arg_string args ''path'' [] \<noteq> [] \<Longrightarrow>
   resolvePath (rootDir ctx) (arg_string args ''path'' []) = Inl e \<Longrightarrow>
   writeFileTool pf ctx args s = (Inl e, s)"
  by (simp add: writeFileTool_def)

lemma writeFileTool_guarded:
  "arg_string args ''path'' [] \<noteq> [] \<Longrightarrow>
   resolvePath (rootDir ctx) (arg_string args ''path'' []) = Inr r \<Longrightarrow>
   previous_content s r = Inl e \<Longrightarrow>
   writeFileTool pf ctx args s = (Inl e, s)"
  by (simp add: writeFileTool_def)

lemma writeFileTool_refused:
  "arg_string args ''path'' [] \<noteq> [] \<Longrightarrow>
   resolvePath (rootDir ctx) (arg_string args ''path'' []) = Inr r \<Longrightarrow>
   previous_content s r = Inr previous \<Longrightarrow>
   write_refused pf r = Some m \<Longrightarrow>
   writeFileTool pf ctx args s = (Inl (Error m), s)"
  by (simp add: writeFileTool_def fs_writeFile_def)

lemma writeFileTool_written:
  "arg_string args ''path'' [] \<noteq> [] \<Longrightarrow>
   resolvePath (rootDir ctx) (arg_string args ''path'' []) = Inr r \<Longrightarrow>
   previous_content s r = Inr previous \<Longrightarrow>
   write_refused pf r = None \<Longrightarrow>
   diff_u pf previous (arg_string args ''content'' []) (arg_string args ''path'' []) = Inr (out, None) \<Longrightarrow>
   writeFileTool pf ctx args s =
     (Inr (write_output (arg_string args ''path'' []) (\<not> fs_exists s r) (trim out)
             previous (arg_string args ''content'' [])),
      s\<lparr>files := (files s)(r \<mapsto> arg_string args ''content'' []),
        spawned := spawned s @ [diff_argv (arg_string args ''path'' [])]\<rparr>)"
  by (simp add: writeFileTool_def fs_writeFile_def createUnifiedDiff_def Let_def)

lemma writeFileTool_undiffed:
  "arg_string args ''path'' [] \<noteq> [] \<Longrightarrow>
   resolvePath (rootDir ctx) (arg_string args ''path'' []) = Inr r \<Longrightarrow>
   previous_content s r = Inr previous \<Longrightarrow>
   write_refused pf r = None \<Longrightarrow>
   diff_u pf previous (arg_string args ''content'' []) (arg_string args ''path'' []) = Inl e \<Longrightarrow>
   writeFileTool pf ctx args s =
     (Inl e, s\<lparr>files := (files s)(r \<mapsto> arg_string args ''content'' [])\<rparr>)"
  by (simp add: writeFileTool_def fs_writeFile_def createUnifiedDiff_def Let_def)

lemma writeFileTool_uncleaned:
  "arg_string args ''path'' [] \<noteq> [] \<Longrightarrow>
   resolvePath (rootDir ctx) (arg_string args ''path'' []) = Inr r \<Longrightarrow>
   previous_content s r = Inr previous \<Longrightarrow>
   write_refused pf r = None \<Longrightarrow>
   diff_u pf previous (arg_string args ''content'' []) (arg_string args ''path'' []) = Inr (out, Some e) \<Longrightarrow>
   writeFileTool pf ctx args s =
     (Inl e, s\<lparr>files := (files s)(r \<mapsto> arg_string args ''content'' []),
               spawned := spawned s @ [diff_argv (arg_string args ''path'' [])]\<rparr>)"
  by (simp add: writeFileTool_def fs_writeFile_def createUnifiedDiff_def Let_def)

text \<open>Once the platform has accepted the write, the file holds the new content, whatever the diff does.\<close>

lemma writeFileTool_accepted:
  assumes "arg_string args ''path'' [] \<noteq> []"
    and "resolvePath (rootDir ctx) (arg_string args ''path'' []) = Inr r"
    and "previous_content s r = Inr previous"
    and "write_refused pf r = None"
  shows "files (snd (writeFileTool pf ctx args s)) = (files s)(r \<mapsto> arg_string args ''content'' []) \<and>
         readSet (snd (writeFileTool pf ctx args s)) = readSet s"
proof (cases "diff_u pf previous (arg_string args ''content'' []) (arg_string args ''path'' [])")
  case (Inl e)
  with assms show ?thesis by (simp add: writeFileTool_undiffed)
next
  case (Inr res)
  obtain out removed where res: "res = (out, removed)" by (cases res)
  show ?thesis
  proof (cases removed)
    case None
    with assms Inr res show ?thesis by (simp add: writeFileTool_written)
  next
    case (Some e)
    with assms Inr res show ?thesis by (simp add: writeFileTool_uncleaned)
  qed
qed

lemma writeFileTool_readSet: "readSet (snd (writeFileTool pf ctx args s)) = readSet s"
proof (cases "arg_string args ''path'' [] = []")
  case True
  then show ?thesis by (simp add: writeFileTool_no_path)
next
  case False
  show ?thesis
  proof (cases "resolvePath (rootDir ctx) (arg_string args ''path'' [])")
    case (Inl e)
    with False show ?thesis by (simp add: writeFileTool_unresolved)
  next
    case (Inr r)
    show ?thesis
    proof (cases "previous_content s r")
      case (Inl e)
      with False Inr show ?thesis by (simp add: writeFileTool_guarded)
    next
      case prev: (Inr previous)
      show ?thesis
      proof (cases "write_refused pf r")
        case None
        with False Inr prev show ?thesis by (simp add: writeFileTool_accepted)
      next
        case (Some m)
        with False Inr prev show ?thesis by (simp add: writeFileTool_refused)
      qed
    qed
  qed
qed

lemma createUnifiedDiff_keeps [simp]:
  "readSet (snd (createUnifiedDiff pf b a p s)) = readSet s"
  "files (snd (createUnifiedDiff pf b a p s)) = files s"
  by (simp_all add: createUnifiedDiff_def split: sum.splits prod.splits option.splits)

lemma collect_after_keeps:
  "readSet (snd (collect_after pf ctx bm qs acc s)) = readSet s \<and>
   files (snd (collect_after pf ctx bm qs acc s)) = files s"
proof (induction qs arbitrary: acc s)
  case Nil
  then show ?case by simp
next
  case (Cons q qs)
  show ?case
  proof (cases "resolvePath (rootDir ctx) q")
    case (Inl e)
    then show ?thesis by simp
  next
    case (Inr r)
    show ?thesis
    proof (cases "fs_readFile s r")
      case (Inl e)
      with Inr show ?thesis by simp
    next
      case (Inr c)
      obtain d s1 where d: "createUnifiedDiff pf (before_of bm q) c q s = (d, s1)"
        by (cases "createUnifiedDiff pf (before_of bm q) c q s")
      have k: "readSet s1 = readSet s" "files s1 = files s"
        using createUnifiedDiff_keeps(1,2)[of pf "before_of bm q" c q s] d by simp_all
      show ?thesis
      proof (cases d)
        case (Inl e)
        with \<open>resolvePath (rootDir ctx) q = Inr r\<close> Inr d k show ?thesis by simp
      next
        case t: (Inr t)
        with Cons.IH[of _ s1] \<open>resolvePath (rootDir ctx) q = Inr r\<close> Inr d k show ?thesis by simp
      qed
    qed
  qed
qed

lemma readFileTool_readSet:
  "readSet (snd (readFileTool ctx args s)) =
     (case fst (readFileTool ctx args s) of
        Inl e \<Rightarrow> readSet s
      | Inr v \<Rightarrow> insert (path_resolve (rootDir ctx) (arg_string args ''path'' [])) (readSet s))"
  by (auto simp: readFileTool_def Let_def resolvePath_def split: sum.splits)

lemma applyPatchTool_no_patch:
  "arg_string args ''patch'' [] = [] \<Longrightarrow>
   applyPatchTool pf ctx args s = (Inl (Error ''patch is required''), s)"
  by (simp add: applyPatchTool_def)

lemma applyPatchTool_rejected:
  "arg_string args ''patch'' [] \<noteq> [] \<Longrightarrow>
   capture_before ctx s (parsePatchPaths (arg_string args ''patch'' [])) Map.empty = Inl e \<Longrightarrow>
   applyPatchTool pf ctx args s = (Inl e, s)"
  by (simp add: applyPatchTool_def)

lemma applyPatchTool_no_spawn:
  "arg_string args ''patch'' [] \<noteq> [] \<Longrightarrow>
   capture_before ctx s (parsePatchPaths (arg_string args ''patch'' [])) Map.empty = Inr bm \<Longrightarrow>
   git_apply pf (rootDir ctx) (arg_string args ''patch'' []) (files s) = Inl e \<Longrightarrow>
   applyPatchTool pf ctx args s = (Inl e, s)"
  by (simp add: applyPatchTool_def)

lemma applyPatchTool_git_failed:
  "arg_string args ''patch'' [] \<noteq> [] \<Longrightarrow>
   capture_before ctx s (parsePatchPaths (arg_string args ''patch'' [])) Map.empty = Inr bm \<Longrightarrow>
   git_apply pf (rootDir ctx) (arg_string args ''patch'' []) (files s) = Inr (code, stderr, files') \<Longrightarrow>
   code \<noteq> 0 \<Longrightarrow>
   applyPatchTool pf ctx args s =
     (Inl (Error (if stderr \<noteq> [] then stderr else ''git apply failed'')),
      s\<lparr>files := files', spawned := spawned s @ [git_apply_argv]\<rparr>)"
  by (simp add: applyPatchTool_def)

lemma applyPatchTool_applied:
  "arg_string args ''patch'' [] \<noteq> [] \<Longrightarrow>
   capture_before ctx s (parsePatchPaths (arg_string args ''patch'' [])) Map.empty = Inr bm \<Longrightarrow>
   git_apply pf (rootDir ctx) (arg_string args ''patch'' []) (files s) = Inr (0, stderr, files') \<Longrightarrow>
   applyPatchTool pf ctx args s =
     (case collect_after pf ctx bm (parsePatchPaths (arg_string args ''patch'' [])) []
             (s\<lparr>files := files', spawned := spawned s @ [git_apply_argv]\<rparr>) of
        (Inl e, s2) \<Rightarrow> (Inl e, s2)
      | (Inr fl, s2) \<Rightarrow> (Inr (JObj [(''files'', JArr fl)]), s2))"
  by (simp add: applyPatchTool_def)

lemma applyPatchTool_readSet: "readSet (snd (applyPatchTool pf ctx args s)) = readSet s"
proof (cases "arg_string args ''patch'' [] = []")
  case True
  then show ?thesis by (simp add: applyPatchTool_no_patch)
next
  case False
  show ?thesis
  proof (cases "capture_before ctx s (parsePatchPaths (arg_string args ''patch'' [])) Map.empty")
    case (Inl e)
    with False show ?thesis by (simp add: applyPatchTool_rejected)
  next
    case (Inr bm)
    show ?thesis
    proof (cases "git_apply pf (rootDir ctx) (arg_string args ''patch'' []) (files s)")
      case (Inl e)
      with False Inr show ?thesis by (simp add: applyPatchTool_no_spawn)
    next
      case g: (Inr res)
      obtain code stderr files' where res: "res = (code, stderr, files')" by (cases res)
      show ?thesis
      proof (cases "code = 0")
        case True
        obtain r s2 where ca: "collect_after pf ctx bm (parsePatchPaths (arg_string args ''patch'' [])) []
             (s\<lparr>files := files', spawned := spawned s @ [git_apply_argv]\<rparr>) = (r, s2)"
          by (cases "collect_after pf ctx bm (parsePatchPaths (arg_string args ''patch'' [])) []
             (s\<lparr>files := files', spawned := spawned s @ [git_apply_argv]\<rparr>)")
        have "readSet s2 = readSet s"
          using collect_after_keeps[of pf ctx bm "parsePatchPaths (arg_string args ''patch'' [])" "[]"
              "s\<lparr>files := files', spawned := spawned s @ [git_apply_argv]\<rparr>"] ca
          by simp
        then show ?thesis
          using False Inr g res True ca
          by (cases r) (simp_all add: applyPatchTool_applied)
      next
        case neq: False
        with False Inr g res show ?thesis by (simp add: applyPatchTool_git_failed)
      qed
    qed
  qed
qed

lemma listFilesTool_readSet: "readSet (snd (listFilesTool pf ctx args s)) = readSet s"
  by (simp add: listFilesTool_def Let_def split: sum.splits)

lemma grepTool_readSet: "readSet (snd (grepTool pf ctx args s)) = readSet s"
  by (simp add: grepTool_def Let_def split: sum.splits prod.splits)

lemma collectChangedFiles_readSet: "readSet (snd (collectChangedFiles pf ctx s)) = readSet s"
  by (simp add: collectChangedFiles_def Let_def split: sum.splits prod.splits)

lemma deployTool_readSet: "readSet (snd (deployTool pf ctx args s)) = readSet s"
proof -
  obtain r s1 where c: "collectChangedFiles pf ctx s = (r, s1)"
    by (cases "collectChangedFiles pf ctx s")
  have "readSet s1 = readSet s" using collectChangedFiles_readSet[of pf ctx s] c by simp
  then show ?thesis
    using c by (cases r) (simp_all add: deployTool_def Let_def split: sum.splits)
qed

lemma getAllowedTools_keeps [simp]:
  "readSet (snd (getAllowedTools pf b t s)) = readSet s"
  "files (snd (getAllowedTools pf b t s)) = files s"
  "spawned (snd (getAllowedTools pf b t s)) = spawned s"
  by (simp_all add: getAllowedTools_def split: option.splits)

lemma snd_succeeded [simp]: "snd (succeeded r) = snd r"
  by (cases r) (auto simp: succeeded_def split: sum.splits)

lemma executeLocalTool_try_readSet:
  assumes "call_name call \<noteq> ''read_file''"
  shows "readSet (snd (executeLocalTool_try pf call ctx s)) = readSet s"
proof -
  obtain a s1 where g: "getAllowedTools pf (ctx_baseUrl ctx) (ctx_token ctx) s = (a, s1)"
    by (cases "getAllowedTools pf (ctx_baseUrl ctx) (ctx_token ctx) s")
  have s1: "readSet s1 = readSet s"
    using getAllowedTools_keeps(1)[of pf "ctx_baseUrl ctx" "ctx_token ctx" s] g by simp
  show ?thesis
    using assms g s1
    by (cases a)
       (simp_all add: executeLocalTool_try_def listFilesTool_readSet grepTool_readSet
          applyPatchTool_readSet writeFileTool_readSet deployTool_readSet)
qed

lemma snd_executeLocalTool: "snd (executeLocalTool pf call ctx s) = snd (executeLocalTool_try pf call ctx s)"
  by (simp add: executeLocalTool_def split: prod.splits sum.splits)

subsection \<open>Path confinement\<close>

definition escapes :: "string \<Rightarrow> string \<Rightarrow> bool" where
  "escapes root p =
     (starts_with ''..'' (path_relative root (path_resolve root p)) \<or>
      isAbsolute (path_relative root (path_resolve root p)))"

definition within_root :: "string \<Rightarrow> string \<Rightarrow> bool" where
  "within_root root p = (take (length (segments root)) (segments p) = segments root)"

lemma resolvePath_escapes:
  "resolvePath root p = (if escapes root p then Inl path_violation else Inr (path_resolve root p))"
  by (simp add: resolvePath_def escapes_def Let_def)

lemma drop_common_split:
  "drop_common a b = (u, d) \<Longrightarrow> \<exists>c. a = c @ u \<and> b = c @ d"
proof (induction a b rule: drop_common.induct)
  case (1 a as b bs)
  show ?case
  proof (cases "a = b")
    case True
    with 1 obtain c where "as = c @ u" "bs = c @ d" by auto
    with True have "a # as = (a # c) @ u \<and> b # bs = (a # c) @ d" by simp
    then show ?thesis by blast
  next
    case False
    with 1 show ?thesis by auto
  qed
qed auto

lemma join_dotdot: "starts_with ''..'' (join_with ''/'' (''..'' # xs))"
  by (cases xs) (simp_all add: starts_with_def)

lemma relative_up:
  assumes "drop_common (segments root) (segments r) = (u, d)" "u \<noteq> []"
  shows "starts_with ''..'' (path_relative root r)"
proof -
  obtain n where "length u = Suc n" using assms(2) by (cases u) auto
  then show ?thesis
    using assms(1) by (simp add: path_relative_def join_dotdot)
qed

lemma outside_escapes:
  assumes "\<not> within_root root (path_resolve root p)"
  shows "escapes root p"
proof -
  obtain u d where ud: "drop_common (segments root) (segments (path_resolve root p)) = (u, d)"
    by (cases "drop_common (segments root) (segments (path_resolve root p))")
  then obtain c where c: "segments root = c @ u" "segments (path_resolve root p) = c @ d"
    using drop_common_split by blast
  have "u \<noteq> []"
  proof
    assume "u = []"
    with c have "within_root root (path_resolve root p)" by (simp add: within_root_def)
    with assms show False by simp
  qed
  with ud show ?thesis by (simp add: escapes_def relative_up)
qed

lemma resolvePath_confined:
  "resolvePath root p = Inr r \<Longrightarrow> r = path_resolve root p \<and> within_root root r"
  using outside_escapes[of root p] by (auto simp: resolvePath_escapes split: if_splits)

definition plain :: "string \<Rightarrow> bool" where
  "plain seg = (seg \<noteq> [] \<and> seg \<noteq> ''.'' \<and> seg \<noteq> ''..'' \<and> CHR ''/'' \<notin> set seg)"

lemma split_on_nonempty [simp]: "split_on c s \<noteq> []"
  by (induction s) (auto split: list.splits)

lemma split_on_no_sep: "\<forall>l \<in> set (split_on c s). c \<notin> set l"
  by (induction s) (auto split: list.splits)

lemma normalizeString_plain:
  "\<forall>x \<in> set res. plain x \<Longrightarrow> \<forall>x \<in> set segs. CHR ''/'' \<notin> set x \<Longrightarrow>
   \<forall>x \<in> set (normalizeString res segs). plain x"
proof (induction segs arbitrary: res)
  case Nil
  then show ?case by simp
next
  case (Cons seg segs)
  have b: "\<forall>x \<in> set (butlast res). plain x" using Cons.prems(1) by (auto dest: in_set_butlastD)
  have a: "seg \<noteq> [] \<Longrightarrow> seg \<noteq> ''.'' \<Longrightarrow> seg \<noteq> ''..'' \<Longrightarrow> \<forall>x \<in> set (res @ [seg]). plain x"
    using Cons.prems by (auto simp: plain_def)
  show ?case using Cons.IH[of res] Cons.IH[OF b] Cons.IH[OF a] Cons.prems by auto
qed

lemma segments_plain: "\<forall>x \<in> set (segments p). plain x"
  unfolding segments_def by (rule normalizeString_plain) (simp_all add: split_on_no_sep)

lemma normalizeString_of_plain:
  "\<forall>x \<in> set segs. plain x \<Longrightarrow> normalizeString res segs = res @ segs"
  by (induction segs arbitrary: res) (auto simp: plain_def)

lemma split_on_append_plain:
  "c \<notin> set a \<Longrightarrow> split_on c (a @ c # rest) = a # split_on c rest"
  by (induction a) auto

lemma split_on_plain: "c \<notin> set a \<Longrightarrow> split_on c a = [a]"
  by (induction a) auto

lemma split_join:
  "segs \<noteq> [] \<Longrightarrow> \<forall>x \<in> set segs. CHR ''/'' \<notin> set x \<Longrightarrow>
   split_on CHR ''/'' (join_with ''/'' segs) = segs"
proof (induction "''/''" segs rule: join_with.induct)
  case 1
  then show ?case by simp
next
  case (2 s)
  then show ?case by (simp add: split_on_plain)
next
  case (3 s t ss)
  then show ?case by (simp add: split_on_append_plain)
qed

lemma segments_rebuilt:
  assumes "\<forall>x \<in> set segs. plain x"
  shows "segments (CHR ''/'' # join_with ''/'' segs) = segs"
proof (cases segs)
  case Nil
  then show ?thesis by (simp add: segments_def)
next
  case (Cons a as)
  have "\<forall>x \<in> set segs. CHR ''/'' \<notin> set x" using assms by (simp add: plain_def)
  with Cons have "split_on CHR ''/'' (join_with ''/'' segs) = segs"
    using split_join[of segs] by simp
  then have "segments (CHR ''/'' # join_with ''/'' segs) = normalizeString [] ([] # segs)"
    by (simp add: segments_def)
  also have "\<dots> = segs" using assms by (simp add: normalizeString_of_plain)
  finally show ?thesis .
qed

lemma segments_path_resolve:
  "segments (path_resolve root p) = segments (if isAbsolute p then p else root @ ''/'' @ p)"
  unfolding path_resolve_def by (rule segments_rebuilt) (rule segments_plain)

lemma normalizeString_append:
  "normalizeString res (a @ b) = normalizeString (normalizeString res a) b"
  by (induction a arbitrary: res) auto

lemma split_on_snoc_sep: "split_on c (s @ [c]) = split_on c s @ [[]]"
  by (induction s) (auto split: list.splits)

lemma segments_root_slash: "segments (root @ ''/'') = segments root"
  using split_on_snoc_sep[of "CHR ''/''" root]
  by (simp add: segments_def normalizeString_append)

lemma drop_common_same: "drop_common a a = ([], [])"
  by (induction a) auto

lemma empty_path_stays: "\<not> escapes root []"
proof -
  have "segments (path_resolve root []) = segments root"
    by (simp add: segments_path_resolve isAbsolute_def segments_root_slash)
  then show ?thesis
    by (simp add: escapes_def path_relative_def drop_common_same starts_with_def isAbsolute_def)
qed

subsection \<open>The loops of apply_patch\<close>

definition content_at :: "(string \<rightharpoonup> string) \<Rightarrow> string \<Rightarrow> string" where
  "content_at fs p = (case fs p of None \<Rightarrow> [] | Some c \<Rightarrow> c)"

lemma capture_before_step:
  "capture_before ctx s (q # qs) bm =
     (if escapes (rootDir ctx) q then Inl path_violation
      else if path_resolve (rootDir ctx) q \<notin> readSet s then Inl read_before_write
      else case files s (path_resolve (rootDir ctx) q) of
             None \<Rightarrow> Inl (enoent (path_resolve (rootDir ctx) q))
           | Some c \<Rightarrow> capture_before ctx s qs (bm(q \<mapsto> c)))"
  by (simp add: resolvePath_escapes ensureReadBeforeWrite_def fs_readFile_def split: option.splits)

declare capture_before.simps(2) [simp del]

lemma capture_before_fails:
  assumes "q \<in> set qs"
    and "escapes (rootDir ctx) q \<or> path_resolve (rootDir ctx) q \<notin> readSet s"
  shows "\<exists>e. capture_before ctx s qs bm = Inl e"
  using assms
proof (induction qs arbitrary: bm)
  case Nil
  then show ?case by simp
next
  case (Cons a qs)
  show ?case
  proof (cases "a = q")
    case True
    with Cons.prems(2) show ?thesis by (auto simp: capture_before_step)
  next
    case False
    with Cons.prems have "q \<in> set qs" by simp
    from Cons.IH[OF this Cons.prems(2)] show ?thesis
      by (auto simp: capture_before_step split: option.splits)
  qed
qed

lemma capture_before_violation:
  assumes "q \<in> set qs" and "escapes (rootDir ctx) q"
    and "\<forall>x \<in> set qs. escapes (rootDir ctx) x \<or>
           (path_resolve (rootDir ctx) x \<in> readSet s \<and> fs_exists s (path_resolve (rootDir ctx) x))"
  shows "capture_before ctx s qs bm = Inl path_violation"
  using assms
proof (induction qs arbitrary: bm)
  case Nil
  then show ?case by simp
next
  case (Cons a qs)
  show ?case
  proof (cases "escapes (rootDir ctx) a")
    case True
    then show ?thesis by (simp add: capture_before_step)
  next
    case False
    with Cons.prems have q: "q \<in> set qs" by auto
    from False Cons.prems(3) obtain c where
      "path_resolve (rootDir ctx) a \<in> readSet s" "files s (path_resolve (rootDir ctx) a) = Some c"
      by (auto simp: fs_exists_def)
    moreover have "capture_before ctx s qs (bm(a \<mapsto> c)) = Inl path_violation"
      using Cons.IH[OF q Cons.prems(2)] Cons.prems(3) by simp
    ultimately show ?thesis using False by (simp add: capture_before_step)
  qed
qed

lemma capture_before_unread:
  assumes "q \<in> set qs" and "path_resolve (rootDir ctx) q \<notin> readSet s"
    and "\<forall>x \<in> set qs. \<not> escapes (rootDir ctx) x \<and>
           (path_resolve (rootDir ctx) x \<in> readSet s \<longrightarrow> fs_exists s (path_resolve (rootDir ctx) x))"
  shows "capture_before ctx s qs bm = Inl read_before_write"
  using assms
proof (induction qs arbitrary: bm)
  case Nil
  then show ?case by simp
next
  case (Cons a qs)
  have ne: "\<not> escapes (rootDir ctx) a" using Cons.prems(3) by simp
  show ?case
  proof (cases "path_resolve (rootDir ctx) a \<in> readSet s")
    case False
    with ne show ?thesis by (simp add: capture_before_step)
  next
    case True
    with Cons.prems have q: "q \<in> set qs" by auto
    from True Cons.prems(3) obtain c where c: "files s (path_resolve (rootDir ctx) a) = Some c"
      by (auto simp: fs_exists_def)
    have "capture_before ctx s qs (bm(a \<mapsto> c)) = Inl read_before_write"
      using Cons.IH[OF q Cons.prems(2)] Cons.prems(3) by simp
    with ne True c show ?thesis by (simp add: capture_before_step)
  qed
qed

lemma capture_before_captured:
  "capture_before ctx s qs bm = Inr bm' \<Longrightarrow>
   (\<forall>q \<in> set qs. \<not> escapes (rootDir ctx) q \<and> path_resolve (rootDir ctx) q \<in> readSet s \<and>
        fs_exists s (path_resolve (rootDir ctx) q)) \<and>
   (\<forall>q. bm' q = (if q \<in> set qs then files s (path_resolve (rootDir ctx) q) else bm q))"
proof (induction qs arbitrary: bm)
  case Nil
  then show ?case by simp
next
  case (Cons a qs)
  from Cons.prems have a: "\<not> escapes (rootDir ctx) a" "path_resolve (rootDir ctx) a \<in> readSet s"
    by (auto simp: capture_before_step split: if_splits)
  with Cons.prems obtain c where c: "files s (path_resolve (rootDir ctx) a) = Some c"
    and rest: "capture_before ctx s qs (bm(a \<mapsto> c)) = Inr bm'"
    by (auto simp: capture_before_step split: option.splits)
  from Cons.IH[OF rest] a c show ?case by (auto simp: fs_exists_def)
qed

lemma collect_after_step:
  "collect_after pf ctx bm (q # qs) acc s =
     (if escapes (rootDir ctx) q then (Inl path_violation, s)
      else case files s (path_resolve (rootDir ctx) q) of
             None \<Rightarrow> (Inl (enoent (path_resolve (rootDir ctx) q)), s)
           | Some c \<Rightarrow>
               (case diff_u pf (before_of bm q) c q of
                  Inl e \<Rightarrow> (Inl e, s)
                | Inr (out, Some e) \<Rightarrow> (Inl e, s\<lparr>spawned := spawned s @ [diff_argv q]\<rparr>)
                | Inr (out, None) \<Rightarrow>
                    collect_after pf ctx bm qs
                      (acc @ [patched_file q (before_of bm q) c (trim out)])
                      (s\<lparr>spawned := spawned s @ [diff_argv q]\<rparr>)))"
  by (simp add: resolvePath_escapes fs_readFile_def createUnifiedDiff_def
      split: option.splits sum.splits prod.splits)

declare collect_after.simps(2) [simp del]

text \<open>The text \<open>createUnifiedDiff\<close> returns when it returns.\<close>

definition diff_text :: "platform \<Rightarrow> string \<Rightarrow> string \<Rightarrow> string \<Rightarrow> string" where
  "diff_text pf before after filePath =
     (case diff_u pf before after filePath of Inl e \<Rightarrow> [] | Inr (out, removed) \<Rightarrow> trim out)"

lemma collect_after_collected:
  "collect_after pf ctx bm qs acc s = (Inr fl, s') \<Longrightarrow>
   fl = acc @ map (\<lambda>q. patched_file q (before_of bm q)
                          (content_at (files s) (path_resolve (rootDir ctx) q))
                          (diff_text pf (before_of bm q)
                             (content_at (files s) (path_resolve (rootDir ctx) q)) q)) qs \<and>
   s' = s\<lparr>spawned := spawned s @ map diff_argv qs\<rparr>"
proof (induction qs arbitrary: acc s)
  case Nil
  then show ?case by simp
next
  case (Cons a qs)
  from Cons.prems have ne: "\<not> escapes (rootDir ctx) a"
    by (auto simp: collect_after_step split: if_splits)
  with Cons.prems obtain c where c: "files s (path_resolve (rootDir ctx) a) = Some c"
    by (auto simp: collect_after_step split: option.splits)
  with ne Cons.prems obtain out where d: "diff_u pf (before_of bm a) c a = Inr (out, None)"
    by (auto simp: collect_after_step split: sum.splits option.splits)
  with ne c Cons.prems have rest: "collect_after pf ctx bm qs
                 (acc @ [patched_file a (before_of bm a) c (trim out)])
                 (s\<lparr>spawned := spawned s @ [diff_argv a]\<rparr>) = (Inr fl, s')"
    by (simp add: collect_after_step)
  from Cons.IH[OF rest] c d show ?case by (simp add: content_at_def diff_text_def)
qed

subsection \<open>Claims about the sandbox\<close>

text \<open>
  A workspace for the examples: root \<open>/work/app\<close> with one file that nobody has
  read, a manifest that allows the three file tools, a \<open>git apply\<close> that knows two
  patches of that file (one rewrites it, one deletes it) and rejects any other input,
  and a \<open>diff\<close> that prints both texts on one line.
\<close>

definition demo_ctx :: tool_ctx where
  "demo_ctx = \<lparr>rootDir = ''/work/app'', ctx_baseUrl = ''https://api.example/'',
               ctx_token = ''tok'', ctx_appId = ''app1''\<rparr>"

definition no_newline :: string where
  "no_newline = CHR 0x5C # '' No newline at end of file\<newline>''"

definition rewrite_patch :: string where
  "rewrite_patch =
     ''diff --git a/a.txt b/a.txt\<newline>--- a/a.txt\<newline>+++ b/a.txt\<newline>@@ -1 +1 @@\<newline>-old\<newline>'' @
     no_newline @ ''+new\<newline>'' @ no_newline"

definition deletion_patch :: string where
  "deletion_patch =
     ''diff --git a/a.txt b/a.txt\<newline>deleted file mode 100644\<newline>--- a/a.txt\<newline>+++ /dev/null\<newline>@@ -1 +0,0 @@\<newline>-old\<newline>'' @
     no_newline"

definition escape_patch :: string where
  "escape_patch =
     ''diff --git a/../../etc/passwd b/../../etc/passwd\<newline>--- a/../../etc/passwd\<newline>+++ b/../../etc/passwd\<newline>@@ -1 +1 @@\<newline>-root:x:0:0\<newline>+root::0:0\<newline>''"

definition demo_git :: "string \<Rightarrow> string \<Rightarrow> (string \<rightharpoonup> string) \<Rightarrow> exn + (nat \<times> string \<times> (string \<rightharpoonup> string))" where
  "demo_git root patch fs =
     (if patch = rewrite_patch \<and> fs ''/work/app/a.txt'' = Some ''old''
      then Inr (0, [], fs(''/work/app/a.txt'' \<mapsto> ''new''))
      else if patch = deletion_patch \<and> fs ''/work/app/a.txt'' = Some ''old''
      then Inr (0, [], fs(''/work/app/a.txt'' := None))
      else Inr (128, ''error: No valid patches in input'', fs))"

definition demo_platform :: platform where
  "demo_platform =
     \<lparr>write_refused = Map.empty,
      fetchToolManifest = (\<lambda>b t. Inr [''read_file'', ''write_file'', ''apply_patch'']),
      git_apply = demo_git,
      diff_u = (\<lambda>b a p. Inr (''--- a/'' @ p @ '' +++ b/'' @ p @ '' -'' @ b @ '' +'' @ a, None)),
      glob_scan = (\<lambda>pat root fs. Inr []),
      rg = (\<lambda>q pat root fs. Inr (1, [], [])),
      git_status = (\<lambda>root fs. Inr (0, [], [])),
      commitFiles = (\<lambda>b t a fl m. Inl (Error ''offline'')),
      deployApp = (\<lambda>b t a. Inl (Error ''offline''))\<rparr>"

definition demo_state :: sandbox where
  "demo_state = \<lparr>files = [''/work/app/a.txt'' \<mapsto> ''old''], spawned = [], readSet = {},
                 allowedToolsCache = Map.empty\<rparr>"

definition demo_read_state :: sandbox where
  "demo_read_state = demo_state\<lparr>readSet := {''/work/app/a.txt''}\<rparr>"

lemma parsePatchPaths_empty [simp]: "parsePatchPaths [] = []"
  by (simp add: parsePatchPaths_def starts_with_def)

lemma demo_patch_paths:
  "parsePatchPaths rewrite_patch = [''a.txt'']"
  "parsePatchPaths deletion_patch = []"
  "parsePatchPaths escape_patch = [''../../etc/passwd'']"
  "parsePatchPaths (rewrite_patch @ escape_patch) = [''a.txt'', ''../../etc/passwd'']"
  "parsePatchPaths (escape_patch @ rewrite_patch) = [''../../etc/passwd'', ''a.txt'']"
  by (simp_all add: parsePatchPaths_def rewrite_patch_def deletion_patch_def escape_patch_def
      no_newline_def starts_with_def trim_def is_ws_def)

lemma demo_patch_args:
  "arg_string [(''patch'', JStr rewrite_patch)] ''patch'' [] = rewrite_patch"
  "arg_string [(''patch'', JStr deletion_patch)] ''patch'' [] = deletion_patch"
  "arg_string [(''patch'', JStr escape_patch)] ''patch'' [] = escape_patch"
  "arg_string [(''patch'', JStr (rewrite_patch @ escape_patch))] ''patch'' [] = rewrite_patch @ escape_patch"
  "arg_string [(''patch'', JStr (escape_patch @ rewrite_patch))] ''patch'' [] = escape_patch @ rewrite_patch"
  by (simp_all add: arg_string_def rewrite_patch_def deletion_patch_def escape_patch_def)

lemma demo_patch_nonempty [simp]:
  "rewrite_patch \<noteq> []" "deletion_patch \<noteq> []" "escape_patch \<noteq> []"
  by (simp_all add: rewrite_patch_def deletion_patch_def escape_patch_def)

lemma readFileTool_unresolved:
  "arg_string args ''path'' [] \<noteq> [] \<Longrightarrow>
   resolvePath (rootDir ctx) (arg_string args ''path'' []) = Inl e \<Longrightarrow>
   readFileTool ctx args s = (Inl e, s)"
  by (simp add: readFileTool_def)

text \<open>
  The first loop of \<open>applyPatchTool\<close> stops at the first touched path whose round
  raises, with the error of that round; the rounds before it passed. The round of one
  path is the loop on that path alone.
\<close>

lemma capture_before_single:
  "capture_before ctx s [q] bm =
     (if escapes (rootDir ctx) q then Inl path_violation
      else if path_resolve (rootDir ctx) q \<notin> readSet s then Inl read_before_write
      else case files s (path_resolve (rootDir ctx) q) of
             None \<Rightarrow> Inl (enoent (path_resolve (rootDir ctx) q))
           | Some c \<Rightarrow> Inr (bm(q \<mapsto> c)))"
  by (simp add: capture_before_step split: option.splits)

lemma capture_before_first:
  assumes "capture_before ctx s qs bm = Inl e"
  shows "\<exists>q \<in> set qs. capture_before ctx s [q] Map.empty = Inl e \<and>
           (\<forall>x \<in> set (takeWhile (\<lambda>x. x \<noteq> q) qs). \<not> isl (capture_before ctx s [x] Map.empty))"
  using assms
proof (induction qs arbitrary: bm)
  case Nil
  then show ?case by simp
next
  case (Cons a qs)
  show ?case
  proof (cases "isl (capture_before ctx s [a] Map.empty)")
    case True
    then have "capture_before ctx s [a] Map.empty = Inl e"
      using Cons.prems
      by (auto simp: capture_before_step capture_before_single split: if_splits option.splits)
    then show ?thesis by auto
  next
    case False
    then obtain c where c: "\<not> escapes (rootDir ctx) a" "path_resolve (rootDir ctx) a \<in> readSet s"
      "files s (path_resolve (rootDir ctx) a) = Some c"
      by (auto simp: capture_before_single split: if_splits option.splits)
    with Cons.prems have "capture_before ctx s qs (bm(a \<mapsto> c)) = Inl e"
      by (simp add: capture_before_step)
    from Cons.IH[OF this] obtain q where q: "q \<in> set qs" "capture_before ctx s [q] Map.empty = Inl e"
      "\<forall>x \<in> set (takeWhile (\<lambda>x. x \<noteq> q) qs). \<not> isl (capture_before ctx s [x] Map.empty)"
      by blast
    have "a \<noteq> q" using q(2) False by auto
    with q False show ?thesis by auto
  qed
qed

lemma capture_before_at:
  assumes "q \<in> set qs" and "capture_before ctx s [q] Map.empty = Inl e"
    and "\<forall>x \<in> set (takeWhile (\<lambda>x. x \<noteq> q) qs). \<not> isl (capture_before ctx s [x] Map.empty)"
  shows "capture_before ctx s qs bm = Inl e"
  using assms
proof (induction qs arbitrary: bm)
  case Nil
  then show ?case by simp
next
  case (Cons a qs)
  show ?case
  proof (cases "a = q")
    case True
    with Cons.prems(2) show ?thesis
      by (auto simp: capture_before_step capture_before_single split: if_splits option.splits)
  next
    case False
    with Cons.prems have q: "q \<in> set qs" and a: "\<not> isl (capture_before ctx s [a] Map.empty)"
      and rest: "\<forall>x \<in> set (takeWhile (\<lambda>x. x \<noteq> q) qs). \<not> isl (capture_before ctx s [x] Map.empty)"
      by auto
    from a obtain c where c: "\<not> escapes (rootDir ctx) a" "path_resolve (rootDir ctx) a \<in> readSet s"
      "files s (path_resolve (rootDir ctx) a) = Some c"
      by (auto simp: capture_before_single split: if_splits option.splits)
    have "capture_before ctx s qs (bm(a \<mapsto> c)) = Inl e"
      by (rule Cons.IH[OF q Cons.prems(2) rest])
    with c show ?thesis by (simp add: capture_before_step)
  qed
qed

text \<open>
  What \<open>apply_patch\<close> does when a touched path fails its round: it fails before
  \<open>git apply\<close> is spawned, with the state as it was and the error of the first failing
  round.
\<close>

lemma applyPatchTool_stopped:
  assumes "q \<in> set (parsePatchPaths (arg_string args ''patch'' []))"
    and "isl (capture_before ctx s [q] Map.empty)"
  shows "\<exists>e x. applyPatchTool pf ctx args s = (Inl e, s) \<and>
           x \<in> set (parsePatchPaths (arg_string args ''patch'' [])) \<and>
           capture_before ctx s [x] Map.empty = Inl e \<and>
           (\<forall>y \<in> set (takeWhile (\<lambda>y. y \<noteq> x) (parsePatchPaths (arg_string args ''patch'' []))).
               \<not> isl (capture_before ctx s [y] Map.empty))"
proof -
  let ?touched = "parsePatchPaths (arg_string args ''patch'' [])"
  have pne: "arg_string args ''patch'' [] \<noteq> []" using assms(1) by auto
  have "escapes (rootDir ctx) q \<or> path_resolve (rootDir ctx) q \<notin> readSet s \<or>
        files s (path_resolve (rootDir ctx) q) = None"
    using assms(2) by (auto simp: capture_before_single split: if_splits option.splits)
  then obtain e where e: "capture_before ctx s ?touched Map.empty = Inl e"
  proof (elim disjE)
    assume "files s (path_resolve (rootDir ctx) q) = None"
    then have "escapes (rootDir ctx) q \<or> path_resolve (rootDir ctx) q \<notin> readSet s \<or>
               (\<exists>e. capture_before ctx s [q] bm = Inl e)" for bm
      by (simp add: capture_before_single)
    show ?thesis
    proof (cases "capture_before ctx s ?touched Map.empty")
      case (Inl e)
      then show ?thesis by (rule that)
    next
      case (Inr bm')
      from capture_before_captured[OF Inr] assms(1)
      have "fs_exists s (path_resolve (rootDir ctx) q)" by blast
      with \<open>files s (path_resolve (rootDir ctx) q) = None\<close> show ?thesis
        by (simp add: fs_exists_def)
    qed
  qed (use capture_before_fails[OF assms(1), of ctx s Map.empty] that in blast)+
  from capture_before_first[OF e] obtain x where
    "x \<in> set ?touched" "capture_before ctx s [x] Map.empty = Inl e"
    "\<forall>y \<in> set (takeWhile (\<lambda>y. y \<noteq> x) ?touched). \<not> isl (capture_before ctx s [y] Map.empty)"
    by blast
  moreover have "applyPatchTool pf ctx args s = (Inl e, s)"
    using pne e by (simp add: applyPatchTool_rejected)
  ultimately show ?thesis by blast
qed

lemma applyPatchTool_stopped_at:
  assumes "q \<in> set (parsePatchPaths (arg_string args ''patch'' []))"
    and "capture_before ctx s [q] Map.empty = Inl e"
    and "\<forall>y \<in> set (takeWhile (\<lambda>y. y \<noteq> q) (parsePatchPaths (arg_string args ''patch'' []))).
            \<not> isl (capture_before ctx s [y] Map.empty)"
  shows "applyPatchTool pf ctx args s = (Inl e, s)"
proof -
  have pne: "arg_string args ''patch'' [] \<noteq> []" using assms(1) by auto
  with capture_before_at[OF assms, of Map.empty] show ?thesis
    by (simp add: applyPatchTool_rejected)
qed

text \<open>
  Claim C1, as the code has it. A path argument that escapes the workspace root (its
  form relative to the root starts with \<open>..\<close> or is absolute; in particular every path
  whose resolved segments do not extend the root's) makes \<open>read_file\<close> and
  \<open>write_file\<close> fail with the path-violation error, with the whole state (files, read
  set, spawned processes) unchanged. \<open>apply_patch\<close> checks the paths of the \<open>+++ b/\<close>
  header lines of the patch, in order: when one of them escapes, the call fails with the
  state unchanged before anything is spawned, and the error is that of the first
  touched path whose round fails; it is the path violation when every touched path
  before the escaping one passes its round.
\<close>

theorem path_confinement:
  assumes "escapes (rootDir ctx) P \<or> \<not> within_root (rootDir ctx) (path_resolve (rootDir ctx) P)"
  shows "(arg_string args ''path'' [] = P \<longrightarrow>
            readFileTool ctx args s = (Inl path_violation, s) \<and>
            writeFileTool pf ctx args s = (Inl path_violation, s)) \<and>
         (P \<in> set (parsePatchPaths (arg_string pargs ''patch'' [])) \<longrightarrow>
            (\<exists>e q. applyPatchTool pf ctx pargs s = (Inl e, s) \<and>
                    q \<in> set (parsePatchPaths (arg_string pargs ''patch'' [])) \<and>
                    capture_before ctx s [q] Map.empty = Inl e \<and>
                    (\<forall>x \<in> set (takeWhile (\<lambda>x. x \<noteq> q) (parsePatchPaths (arg_string pargs ''patch'' []))).
                        \<not> isl (capture_before ctx s [x] Map.empty))) \<and>
            ((\<forall>x \<in> set (takeWhile (\<lambda>x. x \<noteq> P) (parsePatchPaths (arg_string pargs ''patch'' []))).
                 \<not> isl (capture_before ctx s [x] Map.empty)) \<longrightarrow>
             applyPatchTool pf ctx pargs s = (Inl path_violation, s)))"
proof -
  have esc: "escapes (rootDir ctx) P" using assms outside_escapes by blast
  then have ne: "P \<noteq> []" using empty_path_stays by blast
  have rp: "resolvePath (rootDir ctx) P = Inl path_violation"
    using esc by (simp add: resolvePath_escapes)
  have single: "capture_before ctx s [P] Map.empty = Inl path_violation"
    using esc by (simp add: capture_before_single)
  have a: "arg_string args ''path'' [] = P \<longrightarrow>
            readFileTool ctx args s = (Inl path_violation, s) \<and>
            writeFileTool pf ctx args s = (Inl path_violation, s)"
    using ne rp by (auto simp: readFileTool_unresolved writeFileTool_unresolved)
  have b: "\<exists>e q. applyPatchTool pf ctx pargs s = (Inl e, s) \<and>
                    q \<in> set (parsePatchPaths (arg_string pargs ''patch'' [])) \<and>
                    capture_before ctx s [q] Map.empty = Inl e \<and>
                    (\<forall>x \<in> set (takeWhile (\<lambda>x. x \<noteq> q) (parsePatchPaths (arg_string pargs ''patch'' []))).
                        \<not> isl (capture_before ctx s [x] Map.empty))"
    if mem: "P \<in> set (parsePatchPaths (arg_string pargs ''patch'' []))"
    using applyPatchTool_stopped[OF mem, of ctx s pf] single by simp
  have c: "applyPatchTool pf ctx pargs s = (Inl path_violation, s)"
    if mem: "P \<in> set (parsePatchPaths (arg_string pargs ''patch'' []))"
      and first: "\<forall>x \<in> set (takeWhile (\<lambda>x. x \<noteq> P) (parsePatchPaths (arg_string pargs ''patch'' []))).
                 \<not> isl (capture_before ctx s [x] Map.empty)"
    by (rule applyPatchTool_stopped_at[OF mem single first])
  from a b c show ?thesis by blast
qed

lemma demo_escape: "escapes ''/work/app'' ''../../etc/passwd''"
  by (simp add: escapes_def path_resolve_def path_relative_def segments_def isAbsolute_def starts_with_def)

lemma demo_inside:
  "\<not> escapes ''/work/app'' ''a.txt''" "path_resolve ''/work/app'' ''a.txt'' = ''/work/app/a.txt''"
  by (simp_all add: escapes_def path_resolve_def path_relative_def segments_def isAbsolute_def
      starts_with_def)

lemma demo_rounds:
  "capture_before demo_ctx demo_state [''a.txt''] Map.empty = Inl read_before_write"
  "capture_before demo_ctx demo_read_state [''a.txt''] Map.empty = Inr [''a.txt'' \<mapsto> ''old'']"
  "capture_before demo_ctx s [''../../etc/passwd''] Map.empty = Inl path_violation"
  by (simp_all add: capture_before_single demo_ctx_def demo_escape demo_inside demo_state_def
      demo_read_state_def)

theorem path_confinement_witness:
  "escapes (rootDir demo_ctx) ''../../etc/passwd'' \<and>
   readFileTool demo_ctx [(''path'', JStr ''../../etc/passwd'')] demo_state
     = (Inl path_violation, demo_state) \<and>
   writeFileTool demo_platform demo_ctx
       [(''path'', JStr ''../../etc/passwd''), (''content'', JStr ''root::0:0'')] demo_state
     = (Inl path_violation, demo_state) \<and>
   applyPatchTool demo_platform demo_ctx [(''patch'', JStr escape_patch)] demo_state
     = (Inl path_violation, demo_state) \<and>
   applyPatchTool demo_platform demo_ctx [(''patch'', JStr (rewrite_patch @ escape_patch))] demo_read_state
     = (Inl path_violation, demo_read_state)"
proof -
  have e: "escapes (rootDir demo_ctx) ''../../etc/passwd''"
    by (simp add: demo_ctx_def demo_escape)
  have r: "arg_string [(''path'', JStr ''../../etc/passwd'')] ''path'' [] = ''../../etc/passwd''"
     "arg_string [(''path'', JStr ''../../etc/passwd''), (''content'', JStr ''root::0:0'')] ''path'' [] = ''../../etc/passwd''"
    by (simp_all add: arg_string_def)
  have ok: "\<not> isl (capture_before demo_ctx demo_read_state [''a.txt''] Map.empty)"
    by (simp add: demo_rounds)
  note A = path_confinement[of demo_ctx "''../../etc/passwd''" "[(''path'', JStr ''../../etc/passwd'')]" demo_state
        demo_platform "[(''patch'', JStr escape_patch)]"]
  note B = path_confinement[of demo_ctx "''../../etc/passwd''"
        "[(''path'', JStr ''../../etc/passwd''), (''content'', JStr ''root::0:0'')]" demo_state
        demo_platform "[(''patch'', JStr escape_patch)]"]
  note C = path_confinement[of demo_ctx "''../../etc/passwd''" "[]" demo_read_state
        demo_platform "[(''patch'', JStr (rewrite_patch @ escape_patch))]"]
  have 1: "readFileTool demo_ctx [(''path'', JStr ''../../etc/passwd'')] demo_state
     = (Inl path_violation, demo_state)"
    using A e r by simp
  have 2: "writeFileTool demo_platform demo_ctx
       [(''path'', JStr ''../../etc/passwd''), (''content'', JStr ''root::0:0'')] demo_state
     = (Inl path_violation, demo_state)"
    using B e r by simp
  have 3: "applyPatchTool demo_platform demo_ctx [(''patch'', JStr escape_patch)] demo_state
     = (Inl path_violation, demo_state)"
    using A e by (simp add: demo_patch_args demo_patch_paths)
  have 4: "applyPatchTool demo_platform demo_ctx [(''patch'', JStr (rewrite_patch @ escape_patch))] demo_read_state
     = (Inl path_violation, demo_read_state)"
    using C e ok by (simp add: demo_patch_args demo_patch_paths)
  from e 1 2 3 4 show ?thesis by simp
qed

text \<open>
  Claim C1 at the call where the code departs from it: a patch that rewrites a file
  nobody has read and then a file outside the root. The call fails and changes nothing,
  but the error is the read-before-write error of the first touched path, not the path
  violation.
\<close>

theorem escape_reported_as_unread:
  "parsePatchPaths (rewrite_patch @ escape_patch) = [''a.txt'', ''../../etc/passwd''] \<and>
   escapes (rootDir demo_ctx) ''../../etc/passwd'' \<and>
   applyPatchTool demo_platform demo_ctx [(''patch'', JStr (rewrite_patch @ escape_patch))] demo_state
     = (Inl read_before_write, demo_state) \<and>
   read_before_write \<noteq> path_violation"
proof -
  have "capture_before demo_ctx demo_state [''a.txt'', ''../../etc/passwd''] Map.empty
          = Inl read_before_write"
    by (simp add: capture_before_step demo_ctx_def demo_inside demo_state_def)
  then show ?thesis
    by (simp add: applyPatchTool_def demo_patch_args demo_patch_paths demo_ctx_def demo_escape
        read_before_write_def path_violation_def)
qed

lemma previous_content_unread:
  "fs_exists s r \<Longrightarrow> r \<notin> readSet s \<Longrightarrow> previous_content s r = Inl read_before_write"
  by (simp add: previous_content_def ensureReadBeforeWrite_def)









text \<open>
  When \<open>apply_patch\<close> returns a result, \<open>git apply\<close> exited with 0, and the result
  lists for each touched path the content before the patch, the content after it and
  the unified diff computed from these two texts (never the patch text).
\<close>

lemma applyPatchTool_result:
  assumes "applyPatchTool pf ctx args s = (Inr v, s')"
  shows "\<exists>stderr files'.
         git_apply pf (rootDir ctx) (arg_string args ''patch'' []) (files s) = Inr (0, stderr, files') \<and>
         s' = s\<lparr>files := files',
                spawned := spawned s @ [git_apply_argv] @
                           map diff_argv (parsePatchPaths (arg_string args ''patch'' []))\<rparr> \<and>
         v = JObj [(''files'', JArr (map
               (\<lambda>q. JObj [(''path'', JStr q),
                          (''before'', JStr (content_at (files s) (path_resolve (rootDir ctx) q))),
                          (''after'', JStr (content_at files' (path_resolve (rootDir ctx) q))),
                          (''diff'', JStr (diff_text pf (content_at (files s) (path_resolve (rootDir ctx) q))
                                       (content_at files' (path_resolve (rootDir ctx) q)) q))])
               (parsePatchPaths (arg_string args ''patch'' []))))]"
proof -
  let ?patch = "arg_string args ''patch'' []"
  let ?touched = "parsePatchPaths ?patch"
  note ok = assms
  have pne: "?patch \<noteq> []"
    using ok by (auto simp: applyPatchTool_no_patch)
  obtain bm where bm: "capture_before ctx s ?touched Map.empty = Inr bm"
    using ok pne by (cases "capture_before ctx s ?touched Map.empty")
                    (auto simp: applyPatchTool_rejected)
  obtain code stderr files' where g: "git_apply pf (rootDir ctx) ?patch (files s) = Inr (code, stderr, files')"
    using ok pne bm by (cases "git_apply pf (rootDir ctx) ?patch (files s)")
                       (auto simp: applyPatchTool_no_spawn)
  have code: "code = 0"
    using ok pne bm g applyPatchTool_git_failed[of args ctx s bm pf code stderr files'] by auto
  let ?s1 = "s\<lparr>files := files', spawned := spawned s @ [git_apply_argv]\<rparr>"
  obtain r s2 where ca: "collect_after pf ctx bm ?touched [] ?s1 = (r, s2)"
    by (cases "collect_after pf ctx bm ?touched [] ?s1")
  have eq: "applyPatchTool pf ctx args s =
              (case (r, s2) of (Inl e, s2) \<Rightarrow> (Inl e, s2)
               | (Inr fl, s2) \<Rightarrow> (Inr (JObj [(''files'', JArr fl)]), s2))"
    using applyPatchTool_applied[OF pne bm, of pf stderr files'] g code ca by simp
  then obtain fl where fl: "r = Inr fl" "v = JObj [(''files'', JArr fl)]" "s' = s2"
    using ok by (cases r) auto
  from collect_after_collected[of pf ctx bm ?touched "[]" ?s1 fl s2] ca fl(1)
  have flv: "fl = map (\<lambda>q. patched_file q (before_of bm q)
                        (content_at files' (path_resolve (rootDir ctx) q))
                        (diff_text pf (before_of bm q)
                           (content_at files' (path_resolve (rootDir ctx) q)) q)) ?touched"
    and s2: "s2 = ?s1\<lparr>spawned := spawned ?s1 @ map diff_argv ?touched\<rparr>"
    by simp_all
  have bef: "\<forall>q \<in> set ?touched. before_of bm q = content_at (files s) (path_resolve (rootDir ctx) q)"
    using capture_before_captured[OF bm] by (simp add: before_of_def content_at_def)
  have "fl = map (\<lambda>q. JObj [(''path'', JStr q),
                          (''before'', JStr (content_at (files s) (path_resolve (rootDir ctx) q))),
                          (''after'', JStr (content_at files' (path_resolve (rootDir ctx) q))),
                          (''diff'', JStr (diff_text pf (content_at (files s) (path_resolve (rootDir ctx) q))
                                       (content_at files' (path_resolve (rootDir ctx) q)) q))])
             ?touched"
    unfolding flv using bef by (intro map_cong) (simp_all add: patched_file_def)
  with g code fl s2 show ?thesis by simp
qed

text \<open>
  Claim C7, at the input where the code departs from it: a patch that deletes the one
  file of the workspace, which nobody has read. Its only \<open>+++\<close> line names
  \<open>/dev/null\<close>, so \<open>parsePatchPaths\<close> finds no touched path, no round of the first loop
  runs, \<open>git apply\<close> is spawned and the file is gone. For contrast, the patch that
  rewrites the same file has a \<open>+++ b/\<close> line: it is stopped before \<open>git apply\<close> while
  the file is unread, and once the file was read its result lists the content before,
  the content after and the diff of the two.
\<close>

theorem unread_file_deleted:
  "parsePatchPaths deletion_patch = [] \<and>
   files demo_state ''/work/app/a.txt'' = Some ''old'' \<and> readSet demo_state = {} \<and>
   applyPatchTool demo_platform demo_ctx [(''patch'', JStr deletion_patch)] demo_state
     = (Inr (JObj [(''files'', JArr [])]),
        demo_state\<lparr>files := Map.empty, spawned := [git_apply_argv]\<rparr>) \<and>
   applyPatchTool demo_platform demo_ctx [(''patch'', JStr rewrite_patch)] demo_state
     = (Inl read_before_write, demo_state) \<and>
   applyPatchTool demo_platform demo_ctx [(''patch'', JStr rewrite_patch)] demo_read_state
     = (Inr (JObj [(''files'', JArr [JObj [(''path'', JStr ''a.txt''), (''before'', JStr ''old''),
                                             (''after'', JStr ''new''),
                                             (''diff'', JStr ''--- a/a.txt +++ b/a.txt -old +new'')]])]),
        demo_read_state\<lparr>files := [''/work/app/a.txt'' \<mapsto> ''new''],
                          spawned := [git_apply_argv, diff_argv ''a.txt'']\<rparr>)"
proof -
  have g1: "git_apply demo_platform ''/work/app'' deletion_patch [''/work/app/a.txt'' \<mapsto> ''old'']
              = Inr (0, [], Map.empty)"
    by (simp add: demo_platform_def demo_git_def deletion_patch_def rewrite_patch_def)
  have g2: "git_apply demo_platform ''/work/app'' rewrite_patch [''/work/app/a.txt'' \<mapsto> ''old'']
              = Inr (0, [], [''/work/app/a.txt'' \<mapsto> ''new''])"
    by (simp add: demo_platform_def demo_git_def)
  have ne: "deletion_patch \<noteq> []" "rewrite_patch \<noteq> []"
    by simp_all
  have 1: "applyPatchTool demo_platform demo_ctx [(''patch'', JStr deletion_patch)] demo_state
     = (Inr (JObj [(''files'', JArr [])]),
        demo_state\<lparr>files := Map.empty, spawned := [git_apply_argv]\<rparr>)"
    using g1 ne
    by (simp add: applyPatchTool_def demo_patch_args demo_patch_paths demo_ctx_def demo_state_def)
  have 2: "applyPatchTool demo_platform demo_ctx [(''patch'', JStr rewrite_patch)] demo_state
     = (Inl read_before_write, demo_state)"
    using ne
    by (simp add: applyPatchTool_def demo_patch_args demo_patch_paths demo_rounds)
  have d: "diff_u demo_platform ''old'' ''new'' ''a.txt'' = Inr (''--- a/a.txt +++ b/a.txt -old +new'', None)"
    by (simp add: demo_platform_def)
  have t: "trim ''--- a/a.txt +++ b/a.txt -old +new'' = ''--- a/a.txt +++ b/a.txt -old +new''"
    by (simp add: trim_def is_ws_def)
  have 3: "applyPatchTool demo_platform demo_ctx [(''patch'', JStr rewrite_patch)] demo_read_state
     = (Inr (JObj [(''files'', JArr [JObj [(''path'', JStr ''a.txt''), (''before'', JStr ''old''),
                                             (''after'', JStr ''new''),
                                             (''diff'', JStr ''--- a/a.txt +++ b/a.txt -old +new'')]])]),
        demo_read_state\<lparr>files := [''/work/app/a.txt'' \<mapsto> ''new''],
                          spawned := [git_apply_argv, diff_argv ''a.txt'']\<rparr>)"
  proof -
    let ?args = "[(''patch'', JStr rewrite_patch)]"
    have bm: "capture_before demo_ctx demo_read_state (parsePatchPaths (arg_string ?args ''patch'' []))
                Map.empty = Inr [''a.txt'' \<mapsto> ''old'']"
      by (simp add: demo_patch_args demo_patch_paths demo_rounds)
    have g: "git_apply demo_platform (rootDir demo_ctx) (arg_string ?args ''patch'' [])
               (files demo_read_state) = Inr (0, [], [''/work/app/a.txt'' \<mapsto> ''new''])"
      using g2 by (simp add: demo_patch_args demo_ctx_def demo_read_state_def demo_state_def)
    have ca: "collect_after demo_platform demo_ctx [''a.txt'' \<mapsto> ''old''] [''a.txt''] []
                (demo_read_state\<lparr>files := [''/work/app/a.txt'' \<mapsto> ''new''],
                                  spawned := spawned demo_read_state @ [git_apply_argv]\<rparr>)
              = (Inr [JObj [(''path'', JStr ''a.txt''), (''before'', JStr ''old''),
                            (''after'', JStr ''new''),
                            (''diff'', JStr ''--- a/a.txt +++ b/a.txt -old +new'')]],
                 demo_read_state\<lparr>files := [''/work/app/a.txt'' \<mapsto> ''new''],
                                  spawned := [git_apply_argv, diff_argv ''a.txt'']\<rparr>)"
      using d t
      by (simp add: collect_after_step demo_ctx_def demo_inside demo_read_state_def demo_state_def
          before_of_def patched_file_def)
    have pne: "arg_string ?args ''patch'' [] \<noteq> []" by (simp add: demo_patch_args)
    show ?thesis
      using applyPatchTool_applied[OF pne bm g] ca
      by (simp add: demo_patch_args demo_patch_paths)
  qed
  show ?thesis
    using 1 2 3 by (simp add: demo_patch_paths demo_state_def)
qed

lemma readFileTool_failed:
  "readFileTool ctx args s = (Inl e, s') \<Longrightarrow> s' = s"
  by (auto simp: readFileTool_def Let_def split: if_splits sum.splits)

lemma readFileTool_succeeded:
  "readFileTool ctx args s = (Inr v, s') \<Longrightarrow>
   s' = s\<lparr>readSet := insert (path_resolve (rootDir ctx) (arg_string args ''path'' [])) (readSet s)\<rparr>"
  by (auto simp: readFileTool_def Let_def resolvePath_escapes split: if_splits sum.splits)

text \<open>
  Claim C10. The read set grows only through \<open>read_file\<close>: every other tool leaves
  it as it was, a successful \<open>read_file\<close> adds the resolved path and a failed one adds
  nothing. So when \<open>write_file\<close> creates a path that is absent from the read set, a
  second \<open>write_file\<close> to that path right after it fails with the read-before-write
  error.
\<close>

theorem read_set_grows_only_by_read:
  "(call_name call \<noteq> ''read_file'' \<longrightarrow>
      readSet (snd (executeLocalTool pf call ctx s)) = readSet s) \<and>
   readSet (snd (writeFileTool pf ctx args s)) = readSet s \<and>
   readSet (snd (applyPatchTool pf ctx args s)) = readSet s \<and>
   (readFileTool ctx args s = (Inr v, s') \<longrightarrow>
      readSet s' = insert (path_resolve (rootDir ctx) (arg_string args ''path'' [])) (readSet s)) \<and>
   (readFileTool ctx args s = (Inl e, s') \<longrightarrow> readSet s' = readSet s) \<and>
   (path_resolve (rootDir ctx) (arg_string args ''path'' []) \<notin> readSet s \<and>
    \<not> fs_exists s (path_resolve (rootDir ctx) (arg_string args ''path'' [])) \<and>
    writeFileTool pf ctx args s = (Inr v, s') \<and>
    arg_string args2 ''path'' [] = arg_string args ''path'' [] \<longrightarrow>
      writeFileTool pf ctx args2 s' = (Inl read_before_write, s'))"
proof -
  have a: "call_name call \<noteq> ''read_file'' \<longrightarrow>
      readSet (snd (executeLocalTool pf call ctx s)) = readSet s"
    by (simp add: snd_executeLocalTool executeLocalTool_try_readSet)
  have b: "readFileTool ctx args s = (Inr v, s') \<longrightarrow>
      readSet s' = insert (path_resolve (rootDir ctx) (arg_string args ''path'' [])) (readSet s)"
    using readFileTool_succeeded[of ctx args s v s'] by auto
  have c: "readFileTool ctx args s = (Inl e, s') \<longrightarrow> readSet s' = readSet s"
    using readFileTool_failed[of ctx args s e s'] by auto
  have d: "writeFileTool pf ctx args2 s' = (Inl read_before_write, s')"
    if unread: "path_resolve (rootDir ctx) (arg_string args ''path'' []) \<notin> readSet s"
      and w: "writeFileTool pf ctx args s = (Inr v, s')"
      and same: "arg_string args2 ''path'' [] = arg_string args ''path'' []"
  proof -
    let ?P = "arg_string args ''path'' []"
    let ?r = "path_resolve (rootDir ctx) ?P"
    have ne: "?P \<noteq> []" using w by (auto simp: writeFileTool_no_path)
    have rp: "resolvePath (rootDir ctx) ?P = Inr ?r"
      using w ne by (cases "escapes (rootDir ctx) ?P")
                    (auto simp: resolvePath_escapes writeFileTool_unresolved)
    obtain previous where prev: "previous_content s ?r = Inr previous"
      using w ne rp by (cases "previous_content s ?r") (auto simp: writeFileTool_guarded)
    have acc: "write_refused pf ?r = None"
      using w ne rp prev by (cases "write_refused pf ?r") (auto simp: writeFileTool_refused)
    have "files s' ?r = Some (arg_string args ''content'' [])"
      using writeFileTool_accepted[OF ne rp prev acc] w by simp
    then have ex: "fs_exists s' ?r" by (simp add: fs_exists_def)
    have "readSet s' = readSet s" using writeFileTool_readSet[of pf ctx args s] w by simp
    with unread have "?r \<notin> readSet s'" by simp
    with ex have "previous_content s' ?r = Inl read_before_write"
      by (rule previous_content_unread)
    with ne rp same show ?thesis by (simp add: writeFileTool_guarded)
  qed
  from a b c d show ?thesis
    by (simp add: writeFileTool_readSet applyPatchTool_readSet)
qed

definition created_state :: sandbox where
  "created_state = demo_state\<lparr>files := [''/work/app/a.txt'' \<mapsto> ''old'', ''/work/app/b.txt'' \<mapsto> ''x''],
                             spawned := [diff_argv ''b.txt'']\<rparr>"

lemma demo_create:
  "writeFileTool demo_platform demo_ctx [(''path'', JStr ''b.txt''), (''content'', JStr ''x'')] demo_state
     = (Inr (write_output ''b.txt'' True ''--- a/b.txt +++ b/b.txt - +x'' [] ''x''), created_state)"
  by (simp add: writeFileTool_def Let_def arg_string_def demo_ctx_def demo_state_def demo_platform_def
      created_state_def resolvePath_def path_resolve_def path_relative_def segments_def isAbsolute_def
      starts_with_def previous_content_def fs_exists_def fs_writeFile_def createUnifiedDiff_def
      trim_def is_ws_def)

theorem read_set_grows_only_by_read_witness:
  "path_resolve (rootDir demo_ctx) ''b.txt'' \<notin> readSet demo_state \<and>
   \<not> fs_exists demo_state (path_resolve (rootDir demo_ctx) ''b.txt'') \<and>
   writeFileTool demo_platform demo_ctx [(''path'', JStr ''b.txt''), (''content'', JStr ''x'')] demo_state
     = (Inr (write_output ''b.txt'' True ''--- a/b.txt +++ b/b.txt - +x'' [] ''x''), created_state) \<and>
   writeFileTool demo_platform demo_ctx [(''path'', JStr ''b.txt''), (''content'', JStr ''y'')] created_state
     = (Inl read_before_write, created_state) \<and>
   readSet (snd (executeLocalTool demo_platform \<lparr>call_name = ''write_file'',
        call_args = Some [(''path'', JStr ''b.txt''), (''content'', JStr ''x'')]\<rparr> demo_ctx demo_state)) = {} \<and>
   readFileTool demo_ctx [(''path'', JStr ''a.txt'')] demo_state
     = (Inr (JObj [(''path'', JStr ''a.txt''), (''content'', JStr ''old'')]),
        demo_state\<lparr>readSet := {''/work/app/a.txt''}\<rparr>) \<and>
   readFileTool demo_ctx [(''path'', JStr ''missing.txt'')] demo_state
     = (Inl (Error (''ENOENT: no such file or directory, open '/work/app/missing.txt'' @ [CHR 0x27])),
        demo_state)"
proof -
  have pr: "path_resolve (rootDir demo_ctx) ''b.txt'' = ''/work/app/b.txt''"
    by (simp add: demo_ctx_def path_resolve_def segments_def isAbsolute_def)
  have h: "''/work/app/b.txt'' \<notin> readSet demo_state" "\<not> fs_exists demo_state ''/work/app/b.txt''"
    "readSet demo_state = {}"
    by (simp_all add: demo_state_def fs_exists_def)
  have args: "arg_string [(''path'', JStr ''b.txt''), (''content'', JStr ''x'')] ''path'' [] = ''b.txt''"
    "arg_string [(''path'', JStr ''b.txt''), (''content'', JStr ''y'')] ''path'' [] = ''b.txt''"
    by (simp_all add: arg_string_def)
  have r1: "readFileTool demo_ctx [(''path'', JStr ''a.txt'')] demo_state
     = (Inr (JObj [(''path'', JStr ''a.txt''), (''content'', JStr ''old'')]),
        demo_state\<lparr>readSet := {''/work/app/a.txt''}\<rparr>)"
    and r2: "readFileTool demo_ctx [(''path'', JStr ''missing.txt'')] demo_state
     = (Inl (Error (''ENOENT: no such file or directory, open '/work/app/missing.txt'' @ [CHR 0x27])),
        demo_state)"
    by (simp_all add: readFileTool_def Let_def arg_string_def demo_ctx_def demo_state_def
        resolvePath_def path_resolve_def path_relative_def segments_def isAbsolute_def
        starts_with_def fs_readFile_def enoent_def)
  note T = read_set_grows_only_by_read[of "\<lparr>call_name = ''write_file'',
        call_args = Some [(''path'', JStr ''b.txt''), (''content'', JStr ''x'')]\<rparr>" demo_platform demo_ctx
        demo_state "[(''path'', JStr ''b.txt''), (''content'', JStr ''x'')]"
        "write_output ''b.txt'' True ''--- a/b.txt +++ b/b.txt - +x'' [] ''x''" created_state _
        "[(''path'', JStr ''b.txt''), (''content'', JStr ''y'')]"]
  show ?thesis
    using T pr h args demo_create r1 r2 by simp
qed

text \<open>
  Claim C5. \<open>executeLocalTool\<close> never raises: for every call, context, platform and
  state it returns a structured result, and whatever is raised inside its \<open>try\<close> block
  (by the manifest fetch, a tool, a subprocess) comes back as
  \<open>{ok: false, error: message}\<close>.
\<close>

theorem executeLocalTool_never_raises:
  "(\<exists>r s1. executeLocalTool pf call ctx s = (Inr r, s1)) \<and>
   (\<forall>e s1. executeLocalTool_try pf call ctx s = (Inl e, s1) \<longrightarrow>
      executeLocalTool pf call ctx s =
        (Inr \<lparr>r_ok = False, r_output = None, r_error = Some (error_message e ''Tool failed'')\<rparr>, s1)) \<and>
   (\<forall>m. error_message (Error m) ''Tool failed'' = m)"
proof -
  obtain x s1 where t: "executeLocalTool_try pf call ctx s = (x, s1)"
    by (cases "executeLocalTool_try pf call ctx s")
  then have "\<exists>r s1. executeLocalTool pf call ctx s = (Inr r, s1)"
    by (cases x) (simp_all add: executeLocalTool_def)
  then show ?thesis
    by (simp add: executeLocalTool_def failed_def error_message_def)
qed

definition passwd_call :: tool_call where
  "passwd_call = \<lparr>call_name = ''write_file'',
                  call_args = Some [(''path'', JStr ''../../etc/passwd''), (''content'', JStr ''x'')]\<rparr>"

definition cached_state :: sandbox where
  "cached_state = demo_state\<lparr>allowedToolsCache :=
      [''https://api.example'' \<mapsto> Inr [''read_file'', ''write_file'', ''apply_patch'']]\<rparr>"

theorem executeLocalTool_never_raises_witness:
  "executeLocalTool_try demo_platform passwd_call demo_ctx demo_state
     = (Inl (Error ''Path is outside workspace''), cached_state) \<and>
   executeLocalTool demo_platform passwd_call demo_ctx demo_state
     = (Inr \<lparr>r_ok = False, r_output = None, r_error = Some ''Path is outside workspace''\<rparr>,
        cached_state)"
proof -
  have g: "getAllowedTools demo_platform (ctx_baseUrl demo_ctx) (ctx_token demo_ctx) demo_state
            = (Inr [''read_file'', ''write_file'', ''apply_patch''], cached_state)"
    by (simp add: getAllowedTools_def demo_platform_def demo_ctx_def demo_state_def cached_state_def
        strip_slash_def)
  have e: "escapes (rootDir demo_ctx) ''../../etc/passwd''"
    by (simp add: demo_ctx_def demo_escape)
  have w: "writeFileTool demo_platform demo_ctx
             [(''path'', JStr ''../../etc/passwd''), (''content'', JStr ''x'')] cached_state
           = (Inl path_violation, cached_state)"
    using e by (simp add: writeFileTool_def arg_string_def resolvePath_escapes)
  have t: "executeLocalTool_try demo_platform passwd_call demo_ctx demo_state
     = (Inl (Error ''Path is outside workspace''), cached_state)"
    by (simp add: executeLocalTool_try_def g passwd_call_def args_of_def w succeeded_def
        path_violation_def)
  from executeLocalTool_never_raises[of demo_platform passwd_call demo_ctx demo_state] t
  show ?thesis by (simp add: error_message_def)
qed

section \<open>Frame decoder (src/stream.ts)\<close>

subsection \<open>Data frames\<close>

text \<open>
  \<open>JSON.parse\<close> and the clock belong to the runtime; they are parameters
  (\<open>date_now\<close> is \<open>Date.now()\<close> as the template string prints it). A failed parse is
  \<open>Inl\<close> with the message of the \<open>SyntaxError\<close>.
\<close>

record runtime =
  json_parse :: "string \<Rightarrow> string + json"
  date_now :: string
  date_iso :: string

record usage =
  promptTokens :: "int option"
  completionTokens :: "int option"
  totalTokens :: "int option"

definition frames_of :: "json \<Rightarrow> json list" where
  "frames_of raw =
     (case raw of
        JArr xs \<Rightarrow> xs
      | JObj kvs \<Rightarrow> (case map_of kvs ''data'' of Some (JArr ds) \<Rightarrow> ds | _ \<Rightarrow> [raw])
      | _ \<Rightarrow> [raw])"

definition string_field :: "json \<Rightarrow> string \<Rightarrow> string option" where
  "string_field j k = (case field j k of Some (JStr v) \<Rightarrow> Some v | _ \<Rightarrow> None)"

definition array_field :: "json \<Rightarrow> string \<Rightarrow> json list option" where
  "array_field j k = (case field j k of Some (JArr xs) \<Rightarrow> Some xs | _ \<Rightarrow> None)"

definition truthy_field :: "json \<Rightarrow> string \<Rightarrow> json option" where
  "truthy_field j k = (case field j k of Some v \<Rightarrow> if truthy v then Some v else None | None \<Rightarrow> None)"

definition is_object :: "json \<Rightarrow> bool" where
  "is_object j = (case j of JObj kvs \<Rightarrow> True | _ \<Rightarrow> False)"

definition assistant_message :: "runtime \<Rightarrow> json \<Rightarrow> string \<Rightarrow> json" where
  "assistant_message rt typed content =
     JObj [(''type'', JStr ''message''), (''role'', JStr ''assistant''),
           (''id'', JStr (''assistant-'' @ date_now rt)),
           (''content'', JArr [JObj [(''type'', JStr ''markdown''), (''text'', JStr content)]]),
           (''createdAt'', JStr (case string_field typed ''createdAt'' of
                                   Some c \<Rightarrow> c | None \<Rightarrow> date_iso rt))]"

text \<open>
  The loop of \<open>normalizeDataFrames\<close>. A frame that is not an object is skipped; an
  array passes the \<open>typeof\<close> test but has no \<open>type\<close>, so no branch takes it.
\<close>

fun normalize_loop ::
  "runtime \<Rightarrow> json list \<Rightarrow> string option \<times> json list \<Rightarrow> string option \<times> json list" where
  "normalize_loop rt [] acc = acc"
| "normalize_loop rt (frame # rest) (conversationId, items) =
     (if \<not> is_object frame then normalize_loop rt rest (conversationId, items)
      else if string_field frame ''type'' = Some ''conversation-created''
      then normalize_loop rt rest
             (case string_field frame ''conversationId'' of
                Some cid \<Rightarrow> (Some cid, items)
              | None \<Rightarrow> (conversationId, items))
      else if string_field frame ''type'' = Some ''response_items'' \<and> array_field frame ''items'' \<noteq> None
      then normalize_loop rt rest
             (conversationId, items @ (case array_field frame ''items'' of Some its \<Rightarrow> its | None \<Rightarrow> []))
      else if string_field frame ''type'' = Some ''response_item'' \<and> truthy_field frame ''item'' \<noteq> None
      then normalize_loop rt rest
             (conversationId, items @ (case truthy_field frame ''item'' of Some it \<Rightarrow> [it] | None \<Rightarrow> []))
      else if string_field frame ''type'' = Some ''assistant-message'' \<and>
              string_field frame ''content'' \<noteq> None
      then normalize_loop rt rest
             (conversationId,
              items @ (case string_field frame ''content'' of
                         Some content \<Rightarrow> [assistant_message rt frame content]
                       | None \<Rightarrow> []))
      else normalize_loop rt rest (conversationId, items))"

definition normalizeDataFrames :: "runtime \<Rightarrow> json \<Rightarrow> string option \<times> json list" where
  "normalizeDataFrames rt raw = normalize_loop rt (frames_of raw) (None, [])"

definition number_field :: "json \<Rightarrow> string \<Rightarrow> string \<Rightarrow> int option" where
  "number_field u camel snake =
     (case field u camel of
        Some (JNum n) \<Rightarrow> Some n
      | _ \<Rightarrow> (case field u snake of Some (JNum n) \<Rightarrow> Some n | _ \<Rightarrow> None))"

fun usage_loop :: "json list \<Rightarrow> usage option" where
  "usage_loop [] = None"
| "usage_loop (frame # rest) =
     (if \<not> is_object frame then usage_loop rest
      else if string_field frame ''type'' \<noteq> Some ''usage'' then usage_loop rest
      else case field frame ''usage'' of
             None \<Rightarrow> usage_loop rest
           | Some u \<Rightarrow>
               if \<not> truthy u then usage_loop rest
               else Some \<lparr>promptTokens = number_field u ''promptTokens'' ''prompt_tokens'',
                          completionTokens = number_field u ''completionTokens'' ''completion_tokens'',
                          totalTokens = number_field u ''totalTokens'' ''total_tokens''\<rparr>)"

definition extractUsage :: "json \<Rightarrow> usage option" where
  "extractUsage raw = usage_loop (frames_of raw)"

subsection \<open>Callbacks and control flow\<close>

text \<open>
  A callback runs on the caller's state. It returns, raises, or does not return at
  all (\<open>Unfinished\<close>: the recursion of the worker below is cut at a depth, and a cut run
  is not a run that returned). The stop predicate and the stop hook are taken not to
  raise.
\<close>

datatype signal = Returned | Threw exn | Unfinished

type_synonym 's handler = "'s \<Rightarrow> signal \<times> 's"

record 's callbacks =
  onTextDelta :: "(string \<Rightarrow> 's handler) option"
  onReasoningDelta :: "(string \<Rightarrow> 's handler) option"
  onConversationId :: "(string \<Rightarrow> 's handler) option"
  onItems :: "(json list \<Rightarrow> 's handler) option"
  onUsage :: "(usage \<Rightarrow> 's handler) option"
  shouldStop :: "('s \<Rightarrow> bool \<times> 's) option"
  onStop :: "('s \<Rightarrow> 's) option"

definition skip :: "'s handler" where
  "skip s = (Returned, s)"

definition call_opt :: "('a \<Rightarrow> 's handler) option \<Rightarrow> 'a \<Rightarrow> 's handler" where
  "call_opt h x = (case h of None \<Rightarrow> skip | Some f \<Rightarrow> f x)"

definition and_then :: "'s handler \<Rightarrow> 's handler \<Rightarrow> 's handler" where
  "and_then f g s = (case f s of (Returned, s1) \<Rightarrow> g s1 | (other, s1) \<Rightarrow> (other, s1))"

text \<open>What one line does to the loop: go on, return after a stop, raise, or hang.\<close>

datatype flow = Next | Stop | Raise exn | Hang

text \<open>
  \<open>stopIfNeeded\<close>: \<open>True\<close> when the predicate said stop; then the reader was cancelled
  and the stop hook has run.
\<close>

definition stopIfNeeded :: "'s callbacks \<Rightarrow> 's \<Rightarrow> bool \<times> 's" where
  "stopIfNeeded cb s =
     (case shouldStop cb of
        None \<Rightarrow> (False, s)
      | Some p \<Rightarrow>
          (case p s of
             (False, s1) \<Rightarrow> (False, s1)
           | (True, s1) \<Rightarrow> (True, (case onStop cb of None \<Rightarrow> s1 | Some h \<Rightarrow> h s1))))"

definition stop_check :: "'s callbacks \<Rightarrow> 's \<Rightarrow> flow \<times> 's" where
  "stop_check cb s = (case stopIfNeeded cb s of (True, s1) \<Rightarrow> (Stop, s1) | (False, s1) \<Rightarrow> (Next, s1))"

text \<open>A \<open>0:\<close> or \<open>g:\<close> line: the parse is not guarded, the line ends with \<open>continue\<close>.\<close>

definition delta_line ::
  "runtime \<Rightarrow> (string \<Rightarrow> 's handler) option \<Rightarrow> string \<Rightarrow> 's \<Rightarrow> flow \<times> 's" where
  "delta_line rt h payload s =
     (if payload = [] then (Next, s)
      else case json_parse rt payload of
        Inl m \<Rightarrow> (Raise (Error m), s)
      | Inr (JStr delta) \<Rightarrow>
          (case call_opt h delta s of
             (Returned, s1) \<Rightarrow> (Next, s1)
           | (Threw e, s1) \<Rightarrow> (Raise e, s1)
           | (Unfinished, s1) \<Rightarrow> (Hang, s1))
      | Inr _ \<Rightarrow> (Next, s))"

text \<open>
  The \<open>try\<close> block of a \<open>3:\<close> line: what it raises. Its \<open>catch\<close> is empty, so
  \<open>swallow\<close> goes on whatever was raised.
\<close>

definition error_frame_try :: "runtime \<Rightarrow> string \<Rightarrow> exn option" where
  "error_frame_try rt payload =
     (case json_parse rt payload of
        Inl m \<Rightarrow> Some (Error m)
      | Inr (JStr message) \<Rightarrow> Some (Error message)
      | Inr _ \<Rightarrow> None)"

definition swallow :: "exn option \<Rightarrow> 'a \<Rightarrow> 'a" where
  "swallow raised k = k"

definition data_frame_events :: "runtime \<Rightarrow> 's callbacks \<Rightarrow> json \<Rightarrow> 's handler" where
  "data_frame_events rt cb dataItems =
     and_then (case extractUsage dataItems of None \<Rightarrow> skip | Some u \<Rightarrow> call_opt (onUsage cb) u)
    (and_then (case fst (normalizeDataFrames rt dataItems) of
                 None \<Rightarrow> skip
               | Some cid \<Rightarrow> if cid \<noteq> [] then call_opt (onConversationId cb) cid else skip)
              (if snd (normalizeDataFrames rt dataItems) \<noteq> []
               then call_opt (onItems cb) (snd (normalizeDataFrames rt dataItems))
               else skip))"

text \<open>
  A \<open>2:\<close> line with a payload: the \<open>try\<close> block (parse, callbacks, first stop check),
  its empty \<open>catch\<close>, then the stop check at the end of the loop body.
\<close>

definition data_line :: "runtime \<Rightarrow> 's callbacks \<Rightarrow> string \<Rightarrow> 's \<Rightarrow> flow \<times> 's" where
  "data_line rt cb payload s =
     (case json_parse rt payload of
        Inl m \<Rightarrow> swallow (Some (Error m)) (stop_check cb s)
      | Inr dataItems \<Rightarrow>
          (case data_frame_events rt cb dataItems s of
             (Unfinished, s1) \<Rightarrow> (Hang, s1)
           | (Threw e, s1) \<Rightarrow> swallow (Some e) (stop_check cb s1)
           | (Returned, s1) \<Rightarrow>
               (case stopIfNeeded cb s1 of
                  (True, s2) \<Rightarrow> (Stop, s2)
                | (False, s2) \<Rightarrow> stop_check cb s2)))"

definition process_line :: "runtime \<Rightarrow> 's callbacks \<Rightarrow> string \<Rightarrow> 's \<Rightarrow> flow \<times> 's" where
  "process_line rt cb line s =
     (if line = [] then (Next, s)
      else if starts_with ''0:'' line then delta_line rt (onTextDelta cb) (trim (drop 2 line)) s
      else if starts_with ''g:'' line then delta_line rt (onReasoningDelta cb) (trim (drop 2 line)) s
      else if starts_with ''d:'' line then (Next, s)
      else if starts_with ''3:'' line
      then (if trim (drop 2 line) = [] then (Next, s)
            else swallow (error_frame_try rt (trim (drop 2 line))) (Next, s))
      else if starts_with ''2:'' line
      then (if trim (drop 2 line) = [] then (Next, s)
            else data_line rt cb (trim (drop 2 line)) s)
      else stop_check cb s)"

fun process_lines :: "runtime \<Rightarrow> 's callbacks \<Rightarrow> string list \<Rightarrow> 's \<Rightarrow> flow \<times> 's" where
  "process_lines rt cb [] s = (Next, s)"
| "process_lines rt cb (line # rest) s =
     (case process_line rt cb line s of
        (Next, s1) \<Rightarrow> process_lines rt cb rest s1
      | (f, s1) \<Rightarrow> (f, s1))"

subsection \<open>The read loop\<close>

text \<open>
  The body of a response: the chunks the reader yields (already decoded to text; the
  streaming text decoder is the runtime's) and how the reading ends.
\<close>

datatype reader_end = Done | ReadFailed exn

record stream_body =
  chunks :: "string list"
  ending :: reader_end

record response =
  resp_ok :: bool
  resp_status :: nat
  resp_text :: "exn + string"
  resp_body :: "stream_body option"

datatype outcome = Completed | Cancelled | Raised exn | Unreturned

fun read_loop ::
  "runtime \<Rightarrow> 's callbacks \<Rightarrow> string \<Rightarrow> string list \<Rightarrow> reader_end \<Rightarrow> 's \<Rightarrow> outcome \<times> 's" where
  "read_loop rt cb remainder [] fin s =
     (case fin of Done \<Rightarrow> (Completed, s) | ReadFailed e \<Rightarrow> (Raised e, s))"
| "read_loop rt cb remainder (chunk # rest) fin s =
     (case process_lines rt cb (butlast (split_on CHR 0x0A (remainder @ chunk))) s of
        (Next, s1) \<Rightarrow> read_loop rt cb (last (split_on CHR 0x0A (remainder @ chunk))) rest fin s1
      | (Stop, s1) \<Rightarrow> (Cancelled, s1)
      | (Raise e, s1) \<Rightarrow> (Raised e, s1)
      | (Hang, s1) \<Rightarrow> (Unreturned, s1))"

definition consumeStream ::
  "runtime \<Rightarrow> response \<Rightarrow> 's callbacks \<Rightarrow> 's \<Rightarrow> outcome \<times> 's" where
  "consumeStream rt resp cb s =
     (case resp_body resp of
        None \<Rightarrow> (Raised (Error ''Missing response body''), s)
      | Some b \<Rightarrow> read_loop rt cb [] (chunks b) (ending b) s)"

subsection \<open>Observing the decoder\<close>

text \<open>
  A caller that only records what it is told, in order. Its stop predicate, when there
  is one, looks at the record so far.
\<close>

datatype event =
    TextDelta string
  | ReasoningDelta string
  | ConversationId string
  | Items "json list"
  | Usage usage
  | Stopped

definition recorder :: "(event list \<Rightarrow> bool) option \<Rightarrow> event list callbacks" where
  "recorder stop =
     \<lparr>onTextDelta = Some (\<lambda>d log. (Returned, log @ [TextDelta d])),
      onReasoningDelta = Some (\<lambda>d log. (Returned, log @ [ReasoningDelta d])),
      onConversationId = Some (\<lambda>c log. (Returned, log @ [ConversationId c])),
      onItems = Some (\<lambda>its log. (Returned, log @ [Items its])),
      onUsage = Some (\<lambda>u log. (Returned, log @ [Usage u])),
      shouldStop = (case stop of None \<Rightarrow> None | Some p \<Rightarrow> Some (\<lambda>log. (p log, log))),
      onStop = Some (\<lambda>log. log @ [Stopped])\<rparr>"

definition streamed :: "string list \<Rightarrow> reader_end \<Rightarrow> response" where
  "streamed cs fin =
     \<lparr>resp_ok = True, resp_status = 200, resp_text = Inr [],
      resp_body = Some \<lparr>chunks = cs, ending = fin\<rparr>\<rparr>"

text \<open>
  A stand-in for \<open>JSON.parse\<close> on the payloads of the examples: a string literal
  without escapes decodes to its text, the listed frames decode to their values, and
  anything else is a syntax error.
\<close>

definition string_literal :: "string \<Rightarrow> string option" where
  "string_literal p =
     (if 2 \<le> length p \<and> hd p = CHR 0x22 \<and> last p = CHR 0x22 \<and>
         CHR 0x22 \<notin> set (butlast (tl p)) \<and> CHR 0x5C \<notin> set (butlast (tl p))
      then Some (butlast (tl p)) else None)"

definition table_parse :: "(string \<times> json) list \<Rightarrow> string \<Rightarrow> string + json" where
  "table_parse table p =
     (case string_literal p of
        Some t \<Rightarrow> Inr (JStr t)
      | None \<Rightarrow> (case map_of table p of
                   Some j \<Rightarrow> Inr j
                 | None \<Rightarrow> Inl ''Unexpected token in JSON''))"

definition demo_runtime :: "(string \<times> json) list \<Rightarrow> runtime" where
  "demo_runtime table =
     \<lparr>json_parse = table_parse table, date_now = ''1700000000000'',
      date_iso = ''2023-11-14T22:13:20.000Z''\<rparr>"

subsection \<open>Lines across chunk boundaries\<close>

lemma split_on_last_no_sep: "c \<notin> set (last (split_on c s))"
  by (induction s) (auto split: list.splits)

lemma split_on_append:
  "split_on c (a @ b) = butlast (split_on c a) @ split_on c (last (split_on c a) @ b)"
proof (induction a)
  case Nil
  then show ?case by simp
next
  case (Cons x a)
  show ?case
  proof (cases "x = c")
    case True
    with Cons show ?thesis by simp
  next
    case False
    obtain l ls where a: "split_on c a = l # ls" by (cases "split_on c a") auto
    show ?thesis
    proof (cases ls)
      case Nil
      with a Cons False show ?thesis by (simp split: list.splits)
    next
      case (Cons m ms)
      with a Cons.IH False show ?thesis by (simp split: list.splits)
    qed
  qed
qed

lemma split_on_no_sep_single: "c \<notin> set a \<Longrightarrow> split_on c a = [a]"
  by (induction a) auto

lemma process_lines_append:
  "process_lines rt cb (xs @ ys) s =
     (case process_lines rt cb xs s of
        (Next, s1) \<Rightarrow> process_lines rt cb ys s1
      | (f, s1) \<Rightarrow> (f, s1))"
proof (induction xs arbitrary: s)
  case Nil
  then show ?case by simp
next
  case (Cons x xs)
  obtain f s1 where p: "process_line rt cb x s = (f, s1)" by (cases "process_line rt cb x s")
  show ?case using Cons[of s1] p by (cases f) simp_all
qed

lemma read_loop_single:
  "read_loop rt cb remainder [chunk] fin s =
     (case process_lines rt cb (butlast (split_on CHR 0x0A (remainder @ chunk))) s of
        (Next, s1) \<Rightarrow> (case fin of Done \<Rightarrow> (Completed, s1) | ReadFailed e \<Rightarrow> (Raised e, s1))
      | (Stop, s1) \<Rightarrow> (Cancelled, s1)
      | (Raise e, s1) \<Rightarrow> (Raised e, s1)
      | (Hang, s1) \<Rightarrow> (Unreturned, s1))"
  by (simp split: prod.splits flow.splits)

lemma read_loop_concat:
  "CHR 0x0A \<notin> set remainder \<Longrightarrow>
   read_loop rt cb remainder cs fin s = read_loop rt cb remainder [concat cs] fin s"
proof (induction cs arbitrary: remainder s)
  case Nil
  then show ?case by (simp add: split_on_no_sep_single)
next
  case (Cons c cs)
  let ?a = "split_on CHR 0x0A (remainder @ c)"
  let ?r = "last ?a"
  have nr: "CHR 0x0A \<notin> set ?r" by (rule split_on_last_no_sep)
  have sp: "split_on CHR 0x0A (remainder @ concat (c # cs)) =
              butlast ?a @ split_on CHR 0x0A (?r @ concat cs)"
    using split_on_append[of "CHR 0x0A" "remainder @ c" "concat cs"] by simp
  have ne: "split_on CHR 0x0A (?r @ concat cs) \<noteq> []"
    by (cases "?r @ concat cs") (auto split: list.splits)
  have bl: "butlast (split_on CHR 0x0A (remainder @ concat (c # cs))) =
              butlast ?a @ butlast (split_on CHR 0x0A (?r @ concat cs))"
    using sp ne by (simp add: butlast_append)
  obtain f s1 where p: "process_lines rt cb (butlast ?a) s = (f, s1)"
    by (cases "process_lines rt cb (butlast ?a) s")
  show ?case
  proof (cases f)
    case Next
    have "read_loop rt cb remainder (c # cs) fin s = read_loop rt cb ?r cs fin s1"
      using p Next by simp
    also have "\<dots> = read_loop rt cb ?r [concat cs] fin s1"
      by (rule Cons.IH[OF nr])
    also have "\<dots> = read_loop rt cb remainder [concat (c # cs)] fin s"
      unfolding read_loop_single bl process_lines_append using p Next by simp
    finally show ?thesis .
  next
    case Stop
    then show ?thesis
      unfolding read_loop_single bl process_lines_append using p by simp
  next
    case (Raise e)
    then show ?thesis
      unfolding read_loop_single bl process_lines_append using p by simp
  next
    case Hang
    then show ?thesis
      unfolding read_loop_single bl process_lines_append using p by simp
  qed
qed

lemma butlast_split_partial:
  "CHR 0x0A \<notin> set t \<Longrightarrow>
   butlast (split_on CHR 0x0A (a @ t)) = butlast (split_on CHR 0x0A a)"
proof -
  assume t: "CHR 0x0A \<notin> set t"
  have "CHR 0x0A \<notin> set (last (split_on CHR 0x0A a) @ t)"
    using t split_on_last_no_sep[of "CHR 0x0A" a] by simp
  then have "split_on CHR 0x0A (last (split_on CHR 0x0A a) @ t) = [last (split_on CHR 0x0A a) @ t]"
    by (rule split_on_no_sep_single)
  then show ?thesis
    using split_on_append[of "CHR 0x0A" a t] by simp
qed

definition decoded :: "runtime \<Rightarrow> (event list \<Rightarrow> bool) option \<Rightarrow> string list \<Rightarrow> reader_end \<Rightarrow> outcome \<times> event list" where
  "decoded rt stop cs fin = consumeStream rt (streamed cs fin) (recorder stop) []"

text \<open>
  Claim C4, as the code has it. However the bytes of a stream are cut into chunks, the
  decoder does to its caller exactly what it does when the same bytes arrive as one
  chunk: the same callbacks in the same order (in particular the same recorded sequence
  of text, reasoning, conversation-id, items and usage events) and the same way of
  ending. A trailing partial line (text without a newline) emits nothing when it
  arrives and is decoded together with the chunk that brings its newline. When the
  stream ends first, the partial line is discarded: the loop never looks at the
  remainder once the reader is done, so a stream decodes as the stream without its
  unterminated last line.
\<close>

theorem chunking_invariance:
  "consumeStream rt (streamed cs fin) cb s = consumeStream rt (streamed [concat cs] fin) cb s \<and>
   decoded rt stop cs fin = decoded rt stop [concat cs] fin \<and>
   (CHR 0x0A \<notin> set partial \<longrightarrow>
      consumeStream rt (streamed (cs @ [partial]) fin) cb s = consumeStream rt (streamed cs fin) cb s \<and>
      consumeStream rt (streamed (cs @ [partial, rest]) fin) cb s
        = consumeStream rt (streamed (cs @ [partial @ rest]) fin) cb s) \<and>
   (CHR 0x0A \<notin> set partial \<and> concat cs = lines @ partial \<longrightarrow>
      consumeStream rt (streamed cs fin) cb s = consumeStream rt (streamed [lines] fin) cb s)"
proof -
  have inv: "\<And>xs (cb :: 'b callbacks) s. consumeStream rt (streamed xs fin) cb s
                = consumeStream rt (streamed [concat xs] fin) cb s"
  proof -
    fix xs and cb :: "'b callbacks" and s
    show "consumeStream rt (streamed xs fin) cb s = consumeStream rt (streamed [concat xs] fin) cb s"
      using read_loop_concat[of "[]" rt cb xs fin s]
      by (simp add: consumeStream_def streamed_def del: read_loop.simps)
  qed
  have cut: "consumeStream rt (streamed [a @ partial] fin) cb s = consumeStream rt (streamed [a] fin) cb s"
    if "CHR 0x0A \<notin> set partial" for a
    using butlast_split_partial[OF that, of a]
    by (simp add: consumeStream_def streamed_def read_loop_single del: read_loop.simps)
  have early: "consumeStream rt (streamed (cs @ [partial]) fin) cb s = consumeStream rt (streamed cs fin) cb s"
    if "CHR 0x0A \<notin> set partial"
  proof -
    have "consumeStream rt (streamed (cs @ [partial]) fin) cb s
            = consumeStream rt (streamed [concat cs @ partial] fin) cb s"
      using inv[of "cs @ [partial]" cb s] by simp
    also have "\<dots> = consumeStream rt (streamed [concat cs] fin) cb s"
      by (rule cut[OF that])
    also have "\<dots> = consumeStream rt (streamed cs fin) cb s"
      using inv[of cs cb s] by simp
    finally show ?thesis .
  qed
  have ended: "consumeStream rt (streamed cs fin) cb s = consumeStream rt (streamed [lines] fin) cb s"
    if "CHR 0x0A \<notin> set partial" "concat cs = lines @ partial"
    using inv[of cs cb s] cut[OF that(1), of lines] that(2) by simp
  have later: "consumeStream rt (streamed (cs @ [partial, rest]) fin) cb s
        = consumeStream rt (streamed (cs @ [partial @ rest]) fin) cb s"
    using inv[of "cs @ [partial, rest]" cb s] inv[of "cs @ [partial @ rest]" cb s] by simp
  show ?thesis
    using inv[of cs cb s] inv[of cs "recorder stop" "[]"] early later ended
    by (simp add: decoded_def)
qed

lemmas decode_simps = decoded_def consumeStream_def streamed_def recorder_def demo_runtime_def
  table_parse_def string_literal_def process_line_def delta_line_def starts_with_def trim_def
  is_ws_def call_opt_def skip_def stop_check_def stopIfNeeded_def swallow_def

theorem chunking_invariance_witness:
  \<open>CHR 0x0A \<notin> set ''0:" th'' \<and>
   decoded (demo_runtime []) None [''0:"hi"\<newline>0:" th'', ''ere"\<newline>''] Done
     = (Completed, [TextDelta ''hi'', TextDelta '' there'']) \<and>
   decoded (demo_runtime []) None [''0:"hi"\<newline>0:" there"\<newline>''] Done
     = (Completed, [TextDelta ''hi'', TextDelta '' there'']) \<and>
   decoded (demo_runtime []) None [''0:"hi"\<newline>'', ''0:" th''] Done
     = (Completed, [TextDelta ''hi'']) \<and>
   CHR 0x0A \<notin> set ''0:"bye"'' \<and>
   decoded (demo_runtime []) None [''0:"hi"\<newline>0:"b'', ''ye"''] Done
     = (Completed, [TextDelta ''hi''])\<close>
proof -
  have n: \<open>CHR 0x0A \<notin> set ''0:" th''\<close> by simp
  have m: \<open>CHR 0x0A \<notin> set ''0:"bye"''\<close> by simp
  have one: \<open>decoded (demo_runtime []) None [''0:"hi"\<newline>0:" there"\<newline>''] Done
     = (Completed, [TextDelta ''hi'', TextDelta '' there''])\<close>
    by (simp add: decode_simps)
  have two: \<open>decoded (demo_runtime []) None [''0:"hi"\<newline>''] Done = (Completed, [TextDelta ''hi''])\<close>
    by (simp add: decode_simps)
  note T = chunking_invariance[of "demo_runtime []" _ Done "recorder None" "[]" None \<open>''0:" th''\<close>]
  have a: \<open>decoded (demo_runtime []) None [''0:"hi"\<newline>0:" th'', ''ere"\<newline>''] Done
     = (Completed, [TextDelta ''hi'', TextDelta '' there''])\<close>
    using T[of \<open>[''0:"hi"\<newline>0:" th'', ''ere"\<newline>'']\<close>] one by simp
  have b: \<open>decoded (demo_runtime []) None [''0:"hi"\<newline>'', ''0:" th''] Done
     = (Completed, [TextDelta ''hi''])\<close>
    using T[of \<open>[''0:"hi"\<newline>'']\<close>] n two by (simp add: decoded_def)
  have c: \<open>decoded (demo_runtime []) None [''0:"hi"\<newline>0:"b'', ''ye"''] Done
     = (Completed, [TextDelta ''hi''])\<close>
  proof -
    note E = chunking_invariance[where rt = "demo_runtime []" and fin = Done and cb = "recorder None"
        and s = "[]" and partial = \<open>''0:"bye"''\<close> and lines = \<open>''0:"hi"\<newline>''\<close>
        and cs = \<open>[''0:"hi"\<newline>0:"b'', ''ye"'']\<close> and stop = None and rest = "[]",
        THEN conjunct2, THEN conjunct2, THEN conjunct2]
    have \<open>consumeStream (demo_runtime []) (streamed [''0:"hi"\<newline>0:"b'', ''ye"''] Done) (recorder None) []
            = consumeStream (demo_runtime []) (streamed [''0:"hi"\<newline>''] Done) (recorder None) []\<close>
      using E m by simp
    with two show ?thesis by (simp add: decoded_def)
  qed
  from n m a one b c show ?thesis by simp
qed

text \<open>
  Claim C4 at the stream where the code departs from it: the last frame of the stream has
  no newline after it. It is a complete frame, and it is never decoded; with the newline
  it is.
\<close>

theorem final_line_dropped:
  \<open>decoded (demo_runtime []) None [''0:"hi"\<newline>0:"bye"''] Done
     = (Completed, [TextDelta ''hi'']) \<and>
   decoded (demo_runtime []) None [''0:"hi"\<newline>0:"bye"\<newline>''] Done
     = (Completed, [TextDelta ''hi'', TextDelta ''bye''])\<close>
  by (simp add: decode_simps)

text \<open>
  Two facts about single lines, for every parse function and every caller: a \<open>3:\<close>
  line never raises and never changes the caller's state, and the lines that end with
  \<open>continue\<close> never consult the stop predicate.
\<close>

lemma error_line_never_raises:
  assumes "starts_with ''3:'' line"
  shows "process_line rt cb line s = (Next, s)"
proof -
  have "line \<noteq> []" using assms by (auto simp: starts_with_def)
  moreover have "\<not> starts_with ''0:'' line" "\<not> starts_with ''g:'' line" "\<not> starts_with ''d:'' line"
    using assms by (auto simp: starts_with_def)
  ultimately show ?thesis using assms by (simp add: process_line_def swallow_def)
qed

lemma delta_lines_skip_stop_check:
  assumes "line = [] \<or> starts_with ''0:'' line \<or> starts_with ''g:'' line \<or>
           starts_with ''d:'' line \<or> starts_with ''3:'' line"
  shows "process_line rt cb line s = process_line rt (cb\<lparr>shouldStop := None, onStop := None\<rparr>) line s"
proof -
  have "\<not> starts_with ''2:'' line \<or> starts_with ''0:'' line \<or> starts_with ''g:'' line \<or>
        starts_with ''d:'' line \<or> starts_with ''3:'' line \<or> line = []"
    using assms by (auto simp: starts_with_def)
  with assms show ?thesis by (auto simp: process_line_def)
qed

text \<open>
  Claim C3, at the inputs where the code departs from it. A \<open>3:\<close> line whose payload
  is the string \<open>"boom"\<close> does not abort the stream: the \<open>throw\<close> sits inside the
  \<open>try\<close> whose \<open>catch\<close> is empty, and the next line is decoded. A malformed payload on
  a \<open>0:\<close> line does raise: that parse is outside any \<open>try\<close>.
\<close>

theorem error_frame_swallowed:
  \<open>decoded (demo_runtime []) None [''3:"boom"\<newline>0:"after"\<newline>''] Done
     = (Completed, [TextDelta ''after'']) \<and>
   decoded (demo_runtime []) None [''0:{bad\<newline>0:"after"\<newline>''] Done
     = (Raised (Error ''Unexpected token in JSON''), [])\<close>
  by (simp add: decode_simps)

text \<open>
  Claim C8, at the input where the code departs from it. With a stop predicate that
  answers true from the start, a stream of \<open>0:\<close> and \<open>g:\<close> lines is decoded to its
  end: these lines leave the loop body by \<open>continue\<close> before the stop check, so the
  predicate is never asked, the read is not cancelled and the stop hook does not run.
\<close>

theorem stop_not_polled_on_deltas:
  \<open>decoded (demo_runtime []) (Some (\<lambda>log. True)) [''0:"a"\<newline>g:"b"\<newline>0:"c"\<newline>''] Done
     = (Completed, [TextDelta ''a'', ReasoningDelta ''b'', TextDelta ''c''])\<close>
  by (simp add: decode_simps)

section \<open>Session driver (the chat worker)\<close>

subsection \<open>State and collaborators\<close>

datatype chat_mode = General | Builder

datatype exec_mode = Local | Hosted

datatype login_state = Idle | Ready string | Pending string string string | LoginError string

record chat_body =
  b_action :: "string option"
  b_input :: "json list"
  b_mode :: chat_mode
  b_executionMode :: "exec_mode option"
  b_conversationId :: "string option"
  b_appId :: "string option"
  b_toolResult :: "json option"

text \<open>
  The fields of the worker that a turn reads or writes, with what it tells the
  supervisor (\<open>shown\<close>: the lines of \<open>onLine\<close>; \<open>streams\<close>: the texts of \<open>onStream\<close>),
  the bodies it has sent upstream and the history records it has written. \<open>box\<close> is
  what the tools work on: the files and the worker's read set. State reports
  (\<open>onState\<close>) and the persisted configuration are not part of the model.
\<close>

record worker =
  box :: sandbox
  items :: "json list"
  conversationId :: "string option"
  appId :: "string option"
  chatMode :: chat_mode
  loginState :: login_state
  streamingText :: string
  cfg_executionMode :: "exec_mode option"
  shown :: "string list"
  streams :: "string list"
  requests :: "chat_body list"
  history :: "(string \<times> string \<times> string) list"

text \<open>
  What the worker calls: the platform of the tools, the runtime of the decoder, the
  chat endpoint (its answer may depend on how many requests came before), the history
  file (whether writing record number \<open>k\<close> raises), and the pure text helpers of the
  worker (\<open>formatItem\<close>, \<open>formatCompact\<close>, the text of a message for the history),
  which may raise on an item of the wrong shape. No claim depends on the text they
  produce, so they are parameters.
\<close>

record shell =
  sh_platform :: platform
  sh_runtime :: runtime
  baseUrl :: string
  cwd :: string
  chatRequest :: "nat \<Rightarrow> chat_body \<Rightarrow> exn + response"
  saveHistory :: "nat \<Rightarrow> exn option"
  formatItem :: "json \<Rightarrow> exn + string option"
  formatCompact :: "json option \<Rightarrow> string option"
  history_text :: "json \<Rightarrow> exn + string"

subsection \<open>Small steps\<close>

definition nonempty :: "string option \<Rightarrow> string option" where
  "nonempty v = (case v of Some t \<Rightarrow> if t \<noteq> [] then Some t else None | None \<Rightarrow> None)"

definition token :: "worker \<Rightarrow> string option" where
  "token w = (case loginState w of Ready t \<Rightarrow> nonempty (Some t) | _ \<Rightarrow> None)"

definition execution_mode :: "worker \<Rightarrow> exec_mode" where
  "execution_mode w = (case cfg_executionMode w of None \<Rightarrow> Local | Some m \<Rightarrow> m)"

definition appendLine :: "string \<Rightarrow> worker \<Rightarrow> worker" where
  "appendLine text w = w\<lparr>shown := shown w @ [text]\<rparr>"

definition updateStreaming :: "string \<Rightarrow> worker \<Rightarrow> worker" where
  "updateStreaming text w = w\<lparr>streamingText := text, streams := streams w @ [text]\<rparr>"

definition clearStreaming :: "worker \<Rightarrow> worker" where
  "clearStreaming w = w\<lparr>streamingText := [], streams := streams w @ [[]]\<rparr>"

definition recordHistory :: "shell \<Rightarrow> string \<Rightarrow> string \<Rightarrow> string \<Rightarrow> worker handler" where
  "recordHistory sh role typ text w =
     (case saveHistory sh (length (history w)) of
        Some e \<Rightarrow> (Threw e, w)
      | None \<Rightarrow> (Returned, w\<lparr>history := history w @ [(role, typ, text)]\<rparr>))"

definition string_or :: "json option \<Rightarrow> string \<Rightarrow> string" where
  "string_or v dflt = (case v of Some j \<Rightarrow> if truthy j then js_String j else dflt | None \<Rightarrow> dflt)"

text \<open>\<open>String(v ?? "")\<close>.\<close>

definition coalesce_string :: "json option \<Rightarrow> string" where
  "coalesce_string v = (case v of None \<Rightarrow> [] | Some JNull \<Rightarrow> [] | Some j \<Rightarrow> js_String j)"

definition recordHistoryFromItem :: "shell \<Rightarrow> json \<Rightarrow> worker handler" where
  "recordHistoryFromItem sh item w =
     (if string_field item ''type'' = Some ''message''
      then (case history_text sh item of
              Inl e \<Rightarrow> (Threw e, w)
            | Inr text \<Rightarrow>
                if text \<noteq> []
                then recordHistory sh
                       (case field item ''role'' of
                          None \<Rightarrow> ''assistant'' | Some JNull \<Rightarrow> ''assistant'' | Some r \<Rightarrow> js_String r)
                       ''message'' text w
                else (Returned, w))
      else if string_field item ''type'' = Some ''tool_call''
      then recordHistory sh ''tool'' ''tool_call'' (string_or (field item ''name'') ''tool'') w
      else if string_field item ''type'' = Some ''tool_output''
      then recordHistory sh ''tool'' ''tool_output'' ''ok'' w
      else (Returned, w))"

fun capture_loop :: "json list \<Rightarrow> string option" where
  "capture_loop [] = None"
| "capture_loop (item # rest) =
     (case nonempty (string_field item ''appId'') of
        Some direct \<Rightarrow> Some direct
      | None \<Rightarrow>
          (case field item ''output'' of
             None \<Rightarrow> capture_loop rest
           | Some out \<Rightarrow>
               (case nonempty (string_field out ''appId'') of
                  Some outAppId \<Rightarrow> Some outAppId
                | None \<Rightarrow> capture_loop rest)))"

definition maybeCaptureAppId :: "json list \<Rightarrow> worker \<Rightarrow> worker" where
  "maybeCaptureAppId its w =
     (if nonempty (appId w) \<noteq> None then w
      else case capture_loop its of
             None \<Rightarrow> w
           | Some a \<Rightarrow> appendLine (''app linked: '' @ a) (w\<lparr>appId := Some a\<rparr>))"

text \<open>\<open>s.replace(p, "")\<close> for a string pattern: the first occurrence goes.\<close>

fun remove_first :: "string \<Rightarrow> string \<Rightarrow> string" where
  "remove_first p [] = []"
| "remove_first p (c # cs) =
     (if starts_with p (c # cs) then drop (length p) (c # cs) else c # remove_first p cs)"

definition shown_format :: "string option \<Rightarrow> string option" where
  "shown_format formatted = nonempty formatted"

subsection \<open>Tool calls and their results\<close>

text \<open>\<open>`${toolCall.name}`\<close>: the name as a template literal prints it.\<close>

definition tool_name :: "json \<Rightarrow> string" where
  "tool_name tc = (case field tc ''name'' of
                     Some (JStr n) \<Rightarrow> n | Some v \<Rightarrow> js_String v | None \<Rightarrow> ''undefined'')"

definition tool_args :: "json \<Rightarrow> (string \<times> json) list" where
  "tool_args tc = (case field tc ''args'' of Some (JObj kvs) \<Rightarrow> kvs | _ \<Rightarrow> [])"

definition optional :: "string \<Rightarrow> json option \<Rightarrow> (string \<times> json) list" where
  "optional k v = (case v of None \<Rightarrow> [] | Some j \<Rightarrow> [(k, j)])"

definition tool_output_item :: "shell \<Rightarrow> json \<Rightarrow> tool_result \<Rightarrow> json" where
  "tool_output_item sh tc res =
     JObj ([(''type'', JStr ''tool_output'')] @ optional ''callId'' (field tc ''callId'') @
           optional ''name'' (field tc ''name'') @ [(''ok'', JBool (r_ok res))] @
           optional ''output'' (r_output res) @
           optional ''error'' (map_option JStr (r_error res)) @
           [(''createdAt'', JStr (date_iso (sh_runtime sh)))])"

definition tool_output_line :: "shell \<Rightarrow> json \<Rightarrow> tool_result \<Rightarrow> string" where
  "tool_output_line sh tc res =
     ''tool_output: '' @ tool_name tc @ (if r_ok res then '' (ok)'' else '' (error)'') @
     (case nonempty (formatCompact sh (map_option JStr (r_error res))) of
        Some errorText \<Rightarrow> '' error='' @ errorText
      | None \<Rightarrow>
          (case nonempty (formatCompact sh (r_output res)) of
             Some outputText \<Rightarrow> '' output='' @ outputText
           | None \<Rightarrow> []))"

definition tool_result_body :: "worker \<Rightarrow> json \<Rightarrow> chat_body" where
  "tool_result_body w toolOutput =
     \<lparr>b_action = Some ''tool_result'', b_input = items w, b_mode = chatMode w,
      b_executionMode = Some (execution_mode w), b_conversationId = conversationId w,
      b_appId = appId w,
      b_toolResult = Some (JObj ([(''toolName'', JStr (string_or (field toolOutput ''name'') ''tool''))] @
                                 optional ''callId'' (field toolOutput ''callId'') @
                                 optional ''output'' (field toolOutput ''output'') @
                                 optional ''ok'' (field toolOutput ''ok'') @
                                 optional ''error'' (field toolOutput ''error'')))\<rparr>"

definition request_error :: "response \<Rightarrow> string" where
  "request_error resp =
     ''request error: '' @ nat_digits (resp_status resp) @ '' '' @
     (case resp_text resp of Inl e \<Rightarrow> [] | Inr t \<Rightarrow> t)"

text \<open>
  The \<open>try\<close> and \<open>catch\<close> around \<open>consumeStream\<close>, shared by \<open>sendMessage\<close> and
  \<open>sendToolResult\<close>: after a stream that returned, the live text is flushed as an
  assistant line and recorded; whatever was raised, by the stream or by the recording,
  becomes one line and the live text is cleared.
\<close>

definition stream_failed :: "exn \<Rightarrow> worker \<Rightarrow> worker" where
  "stream_failed e w =
     clearStreaming (appendLine (''stream error: '' @ error_message e ''stream failed'') w)"

definition flush_streaming :: "shell \<Rightarrow> worker handler" where
  "flush_streaming sh w =
     (if trim (streamingText w) \<noteq> []
      then recordHistory sh ''assistant'' ''message'' (streamingText w)
             (appendLine (''assistant: '' @ streamingText w) w)
      else (Returned, w))"

definition finish_stream :: "shell \<Rightarrow> outcome \<times> worker \<Rightarrow> signal \<times> worker" where
  "finish_stream sh r =
     (case r of
        (Raised e, w) \<Rightarrow> (Returned, stream_failed e w)
      | (Unreturned, w) \<Rightarrow> (Unfinished, w)
      | (returned, w) \<Rightarrow>
          (case flush_streaming sh w of
             (Returned, w1) \<Rightarrow> (Returned, clearStreaming w1)
           | (Threw e, w1) \<Rightarrow> (Returned, stream_failed e w1)
           | (Unfinished, w1) \<Rightarrow> (Unfinished, w1)))"

definition text_delta :: "string \<Rightarrow> worker handler" where
  "text_delta delta w = (Returned, updateStreaming (streamingText w @ delta) w)"

text \<open>
  One round of the \<open>for\<close> loop of \<open>onItems\<close>. \<open>special\<close> is true in \<open>sendMessage\<close>,
  whose loop shows an assistant message in the live text and goes to the next item;
  the loop of \<open>sendToolResult\<close> has no such branch. \<open>htc\<close> is \<open>handleToolCall\<close>.
\<close>

definition item_round :: "bool \<Rightarrow> (json \<Rightarrow> worker handler) \<Rightarrow> shell \<Rightarrow> json \<Rightarrow> worker handler" where
  "item_round special htc sh item w =
     (let w1 = w\<lparr>items := items w @ [item]\<rparr> in
      if item = JNull then (Threw (Error ''null is not an object''), w1)
      else case formatItem sh item of
        Inl e \<Rightarrow> (Threw e, w1)
      | Inr formatted \<Rightarrow>
          (case (if special \<and> string_field item ''type'' = Some ''message'' \<and>
                    string_field item ''role'' = Some ''assistant''
                 then shown_format formatted else None) of
             Some f \<Rightarrow> (Returned, updateStreaming (remove_first ''assistant: '' f) w1)
           | None \<Rightarrow>
               and_then (if string_field item ''type'' = Some ''tool_call'' then htc item else skip)
                        (recordHistoryFromItem sh item)
                        (case shown_format formatted of
                           Some f \<Rightarrow> appendLine f w1
                         | None \<Rightarrow> w1)))"

fun item_loop :: "bool \<Rightarrow> (json \<Rightarrow> worker handler) \<Rightarrow> shell \<Rightarrow> json list \<Rightarrow> worker handler" where
  "item_loop special htc sh [] w = (Returned, w)"
| "item_loop special htc sh (item # rest) w =
     (case item_round special htc sh item w of
        (Returned, w1) \<Rightarrow> item_loop special htc sh rest w1
      | (other, w1) \<Rightarrow> (other, w1))"

definition on_items :: "bool \<Rightarrow> (json \<Rightarrow> worker handler) \<Rightarrow> shell \<Rightarrow> json list \<Rightarrow> worker handler" where
  "on_items special htc sh its w = item_loop special htc sh its (maybeCaptureAppId its w)"

definition on_conversation_id :: "string \<Rightarrow> worker handler" where
  "on_conversation_id cid w =
     (Returned, if nonempty (conversationId w) = None then w\<lparr>conversationId := Some cid\<rparr> else w)"

definition message_callbacks :: "(json \<Rightarrow> worker handler) \<Rightarrow> shell \<Rightarrow> worker callbacks" where
  "message_callbacks htc sh =
     \<lparr>onTextDelta = Some text_delta, onReasoningDelta = None,
      onConversationId = Some on_conversation_id,
      onItems = Some (on_items True htc sh), onUsage = None, shouldStop = None, onStop = None\<rparr>"

definition tool_callbacks :: "(json \<Rightarrow> worker handler) \<Rightarrow> shell \<Rightarrow> worker callbacks" where
  "tool_callbacks htc sh =
     \<lparr>onTextDelta = Some text_delta, onReasoningDelta = None, onConversationId = None,
      onItems = Some (on_items False htc sh), onUsage = None, shouldStop = None, onStop = None\<rparr>"

text \<open>
  \<open>sendToolResult\<close> and \<open>handleToolCall\<close> call each other through the stream of the
  follow-up turn, with no bound in the source. Each takes the other as a parameter;
  \<open>handleToolCall\<close> ties the knot with a depth, and a run that needs more depth is
  \<open>Unfinished\<close>.

  One handler at a time: \<open>handleToolCall\<close>, \<open>sendToolResult\<close> and \<open>sendMessage\<close>
  below follow one call of \<open>handleInput\<close> from its start to its end, with nothing else
  touching the worker at their \<open>await\<close>s. The worker itself does not order its inputs:
  the reader of the supervisor's socket calls \<open>handleInput\<close> for every input line
  without waiting for the one before (\<open>void handler?.handleInput(message.text)\<close>), so a
  second input is handled while the handler in flight is suspended. What is proved of a
  turn with these functions is proved of a turn during which no other input is handled;
  \<open>second_input\<close> further down composes a run with a second one.
\<close>

definition sendToolResult_with :: "(json \<Rightarrow> worker handler) \<Rightarrow> shell \<Rightarrow> json \<Rightarrow> worker handler" where
  "sendToolResult_with htc sh toolOutput w =
     (if token w = None then (Returned, w)
      else if chatMode w \<noteq> Builder then (Returned, w)
      else if nonempty (conversationId w) = None
      then (Returned, appendLine ''tool_result error: missing conversation id'' w)
      else if execution_mode w \<noteq> Local then (Returned, w\<lparr>items := items w @ [toolOutput]\<rparr>)
      else case chatRequest sh (length (requests w))
                  (tool_result_body (w\<lparr>items := items w @ [toolOutput]\<rparr>) toolOutput) of
        Inl e \<Rightarrow>
          (Threw e, w\<lparr>items := items w @ [toolOutput],
                      requests := requests w @
                        [tool_result_body (w\<lparr>items := items w @ [toolOutput]\<rparr>) toolOutput]\<rparr>)
      | Inr resp \<Rightarrow>
          if \<not> resp_ok resp
          then (Returned,
                appendLine (request_error resp)
                  (w\<lparr>items := items w @ [toolOutput],
                     requests := requests w @
                       [tool_result_body (w\<lparr>items := items w @ [toolOutput]\<rparr>) toolOutput]\<rparr>))
          else finish_stream sh
                 (consumeStream (sh_runtime sh) resp (tool_callbacks htc sh)
                    (w\<lparr>items := items w @ [toolOutput],
                       requests := requests w @
                         [tool_result_body (w\<lparr>items := items w @ [toolOutput]\<rparr>) toolOutput]\<rparr>)))"

text \<open>
  The call \<open>executeLocalTool({name: toolCall.name, args: toolCall.args || {}}, ...)\<close>
  on the files and the read set of the worker. The name goes to the sandbox as the item
  carries it, with no coercion. The sandbox takes it for a string; when it is none, no
  set of tool names has it as a member, so once the manifest is there the answer is
  \<open>Tool not in manifest\<close>, with the name as the template literal prints it, and a
  failed manifest fetch is caught as for any call.
\<close>

definition local_tool ::
  "shell \<Rightarrow> string \<Rightarrow> string \<Rightarrow> json \<Rightarrow> sandbox \<Rightarrow> (exn + tool_result) \<times> sandbox" where
  "local_tool sh tok app tc b =
     (case string_field tc ''name'' of
        Some n \<Rightarrow>
          executeLocalTool (sh_platform sh)
            \<lparr>call_name = n, call_args = Some (tool_args tc)\<rparr>
            \<lparr>rootDir = cwd sh, ctx_baseUrl = baseUrl sh, ctx_token = tok, ctx_appId = app\<rparr> b
      | None \<Rightarrow>
          (case getAllowedTools (sh_platform sh) (baseUrl sh) tok b of
             (Inl e, b1) \<Rightarrow> (Inr (failed (error_message e ''Tool failed'')), b1)
           | (Inr allowedTools, b1) \<Rightarrow>
               (Inr (failed (''Tool not in manifest: '' @ tool_name tc)), b1)))"

definition run_tool :: "shell \<Rightarrow> string \<Rightarrow> string \<Rightarrow> json \<Rightarrow> worker \<Rightarrow> (exn + tool_result) \<times> worker" where
  "run_tool sh tok app tc w =
     (case local_tool sh tok app tc (box w) of
        (r, b) \<Rightarrow> (r, w\<lparr>box := b\<rparr>))"

definition handleToolCall_with :: "(json \<Rightarrow> worker handler) \<Rightarrow> shell \<Rightarrow> json \<Rightarrow> worker handler" where
  "handleToolCall_with str sh toolCall w =
     (case token w of
        None \<Rightarrow> (Returned, w)
      | Some tok \<Rightarrow>
          if chatMode w \<noteq> Builder then (Returned, w)
          else if execution_mode w \<noteq> Local then (Returned, w)
          else case nonempty (appId w) of
            None \<Rightarrow> (Returned, appendLine ''tool_call rejected: missing app id'' w)
          | Some app \<Rightarrow>
              (case run_tool sh tok app toolCall w of
                 (Inl e, w1) \<Rightarrow> (Threw e, w1)
               | (Inr res, w1) \<Rightarrow>
                   and_then (recordHistory sh ''tool'' ''tool_output'' (coalesce_string (r_output res)))
                            (str (tool_output_item sh toolCall res))
                            (appendLine (tool_output_line sh toolCall res) w1)))"

primrec handleToolCall :: "nat \<Rightarrow> shell \<Rightarrow> json \<Rightarrow> worker handler" where
  "handleToolCall 0 sh = (\<lambda>toolCall w. (Unfinished, w))"
| "handleToolCall (Suc n) sh =
     handleToolCall_with (sendToolResult_with (handleToolCall n sh) sh) sh"

definition sendToolResult :: "nat \<Rightarrow> shell \<Rightarrow> json \<Rightarrow> worker handler" where
  "sendToolResult n sh = sendToolResult_with (handleToolCall n sh) sh"

subsection \<open>A conversational turn\<close>

definition user_item :: "shell \<Rightarrow> string \<Rightarrow> json" where
  "user_item sh text =
     JObj [(''type'', JStr ''message''), (''role'', JStr ''user''),
           (''content'', JArr [JObj [(''type'', JStr ''markdown''), (''text'', JStr text)]]),
           (''createdAt'', JStr (date_iso (sh_runtime sh)))]"

definition message_body :: "worker \<Rightarrow> chat_body" where
  "message_body w =
     \<lparr>b_action = None, b_input = items w, b_mode = chatMode w,
      b_executionMode = (if chatMode w = Builder then Some (execution_mode w) else None),
      b_conversationId = conversationId w,
      b_appId = (if chatMode w = Builder then appId w else None),
      b_toolResult = None\<rparr>"

text \<open>
  \<open>sendMessage\<close> up to the request: the user item is appended, shown and recorded,
  then the whole transcript goes upstream.
\<close>

definition asked :: "shell \<Rightarrow> string \<Rightarrow> worker \<Rightarrow> worker" where
  "asked sh text w = appendLine (''user: '' @ text) (w\<lparr>items := items w @ [user_item sh text]\<rparr>)"

definition sent :: "worker \<Rightarrow> worker" where
  "sent w = w\<lparr>requests := requests w @ [message_body w]\<rparr>"

definition sendMessage_with :: "(json \<Rightarrow> worker handler) \<Rightarrow> shell \<Rightarrow> string \<Rightarrow> worker handler" where
  "sendMessage_with htc sh text w =
     (if token w = None then (Returned, appendLine ''login required'' w)
      else case recordHistory sh ''user'' ''message'' text (asked sh text w) of
        (Returned, w1) \<Rightarrow>
          (case chatRequest sh (length (requests w1)) (message_body w1) of
             Inl e \<Rightarrow> (Threw e, sent w1)
           | Inr resp \<Rightarrow>
               if \<not> resp_ok resp then (Returned, appendLine (request_error resp) (sent w1))
               else finish_stream sh
                      (consumeStream (sh_runtime sh) resp (message_callbacks htc sh)
                         (clearStreaming (sent w1))))
      | (other, w1) \<Rightarrow> (other, w1))"

definition sendMessage :: "nat \<Rightarrow> shell \<Rightarrow> string \<Rightarrow> worker handler" where
  "sendMessage n sh = sendMessage_with (handleToolCall n sh) sh"

subsection \<open>What every callback keeps, the decoder keeps\<close>

definition keeps :: "('s \<Rightarrow> 's \<Rightarrow> bool) \<Rightarrow> 's handler \<Rightarrow> bool" where
  "keeps R h = (\<forall>s. R s (snd (h s)))"

definition callbacks_keep :: "('s \<Rightarrow> 's \<Rightarrow> bool) \<Rightarrow> 's callbacks \<Rightarrow> bool" where
  "callbacks_keep R cb =
     ((\<forall>h x. onTextDelta cb = Some h \<longrightarrow> keeps R (h x)) \<and>
      (\<forall>h x. onReasoningDelta cb = Some h \<longrightarrow> keeps R (h x)) \<and>
      (\<forall>h x. onConversationId cb = Some h \<longrightarrow> keeps R (h x)) \<and>
      (\<forall>h x. onItems cb = Some h \<longrightarrow> keeps R (h x)) \<and>
      (\<forall>h x. onUsage cb = Some h \<longrightarrow> keeps R (h x)) \<and>
      (\<forall>p s. shouldStop cb = Some p \<longrightarrow> R s (snd (p s))) \<and>
      (\<forall>h s. onStop cb = Some h \<longrightarrow> R s (h s)))"

lemma keeps_skip: "reflp R \<Longrightarrow> keeps R skip"
  by (simp add: keeps_def skip_def reflp_def)

lemma keeps_call_opt:
  "reflp R \<Longrightarrow> (\<And>f. h = Some f \<Longrightarrow> keeps R (f x)) \<Longrightarrow> keeps R (call_opt h x)"
  by (cases h) (simp_all add: call_opt_def keeps_skip)

lemma keeps_and_then:
  assumes "transp R" "keeps R f" "keeps R g"
  shows "keeps R (and_then f g)"
  unfolding keeps_def
proof
  fix s
  obtain r s1 where f: "f s = (r, s1)" by (cases "f s")
  have 1: "R s s1" using assms(2) f by (auto simp: keeps_def dest: spec[of _ s])
  have 2: "R s1 (snd (g s1))" using assms(3) by (simp add: keeps_def)
  show "R s (snd (and_then f g s))"
    using f 1 2 assms(1) by (cases r) (auto simp: and_then_def elim: transpE)
qed

lemma keeps_data_frame_events:
  assumes "reflp R" "transp R" "callbacks_keep R cb"
  shows "keeps R (data_frame_events rt cb d)"
  unfolding data_frame_events_def
  using assms
  by (intro keeps_and_then)
     (auto simp: callbacks_keep_def keeps_skip intro!: keeps_call_opt split: option.splits)

lemma stopIfNeeded_keeps:
  assumes "reflp R" "transp R" "callbacks_keep R cb"
  shows "R s (snd (stopIfNeeded cb s))"
proof (cases "shouldStop cb")
  case None
  then show ?thesis using assms(1) by (simp add: stopIfNeeded_def reflp_def)
next
  case (Some p)
  obtain b s1 where p: "p s = (b, s1)" by (cases "p s")
  have 1: "R s s1" using assms(3) Some p by (auto simp: callbacks_keep_def dest: spec[of _ s])
  show ?thesis
  proof (cases b)
    case False
    with Some p 1 show ?thesis by (simp add: stopIfNeeded_def)
  next
    case True
    show ?thesis
    proof (cases "onStop cb")
      case None
      with Some p 1 True show ?thesis by (simp add: stopIfNeeded_def)
    next
      case h: (Some h)
      have "R s1 (h s1)" using assms(3) h by (auto simp: callbacks_keep_def)
      with 1 assms(2) have "R s (h s1)" by (auto elim: transpE)
      with Some p True h show ?thesis by (simp add: stopIfNeeded_def)
    qed
  qed
qed

lemma stop_check_keeps:
  assumes "reflp R" "transp R" "callbacks_keep R cb"
  shows "R s (snd (stop_check cb s))"
  using stopIfNeeded_keeps[OF assms, of s]
  by (cases "stopIfNeeded cb s") (auto simp: stop_check_def split: bool.splits)

lemma delta_line_keeps:
  assumes "reflp R" "\<And>f x. h = Some f \<Longrightarrow> keeps R (f x)"
  shows "R s (snd (delta_line rt h payload s))"
proof -
  have r: "R s s" using assms(1) by (simp add: reflp_def)
  have c: "\<And>x. R s (snd (call_opt h x s))"
    using keeps_call_opt[OF assms(1), of h] assms(2) by (simp add: keeps_def)
  show ?thesis
  proof (cases "payload = []")
    case True
    with r show ?thesis by (simp add: delta_line_def)
  next
    case False
    show ?thesis
    proof (cases "json_parse rt payload")
      case (Inl m)
      with False r show ?thesis by (simp add: delta_line_def)
    next
      case (Inr j)
      show ?thesis
      proof (cases j)
        case (JStr d)
        obtain sg s1 where k: "call_opt h d s = (sg, s1)" by (cases "call_opt h d s")
        with c[of d] have "R s s1" by simp
        with False Inr JStr k show ?thesis by (cases sg) (simp_all add: delta_line_def)
      qed (use False Inr r in \<open>simp_all add: delta_line_def\<close>)
    qed
  qed
qed

lemma data_line_keeps:
  assumes "reflp R" "transp R" "callbacks_keep R cb"
  shows "R s (snd (data_line rt cb payload s))"
proof (cases "json_parse rt payload")
  case (Inl m)
  then show ?thesis
    using stop_check_keeps[OF assms, of s] by (simp add: data_line_def swallow_def)
next
  case (Inr d)
  obtain sg s1 where e: "data_frame_events rt cb d s = (sg, s1)"
    by (cases "data_frame_events rt cb d s")
  have 1: "R s s1"
    using keeps_data_frame_events[OF assms, of rt d] e by (auto simp: keeps_def dest: spec[of _ s])
  show ?thesis
  proof (cases sg)
    case Returned
    obtain b s2 where st: "stopIfNeeded cb s1 = (b, s2)" by (cases "stopIfNeeded cb s1")
    have 2: "R s1 s2" using stopIfNeeded_keeps[OF assms, of s1] st by simp
    have 3: "R s2 (snd (stop_check cb s2))" by (rule stop_check_keeps[OF assms])
    from 1 2 3 assms(2) have "R s s2" "R s (snd (stop_check cb s2))" by (auto elim: transpE)
    with Inr e Returned st show ?thesis by (cases b) (simp_all add: data_line_def)
  next
    case (Threw x)
    have "R s1 (snd (stop_check cb s1))" by (rule stop_check_keeps[OF assms])
    with 1 assms(2) have "R s (snd (stop_check cb s1))" by (auto elim: transpE)
    with Inr e Threw show ?thesis by (simp add: data_line_def swallow_def)
  next
    case Unfinished
    with Inr e 1 show ?thesis by (simp add: data_line_def)
  qed
qed

lemma process_line_keeps:
  assumes "reflp R" "transp R" "callbacks_keep R cb"
  shows "R s (snd (process_line rt cb line s))"
proof -
  have r: "R s s" using assms(1) by (simp add: reflp_def)
  have t: "\<And>p. R s (snd (delta_line rt (onTextDelta cb) p s))"
    using assms(3) by (intro delta_line_keeps[OF assms(1)]) (simp add: callbacks_keep_def)
  have g: "\<And>p. R s (snd (delta_line rt (onReasoningDelta cb) p s))"
    using assms(3) by (intro delta_line_keeps[OF assms(1)]) (simp add: callbacks_keep_def)
  show ?thesis
    unfolding process_line_def
    using r t g data_line_keeps[OF assms, of s rt] stop_check_keeps[OF assms, of s]
    by (simp add: swallow_def)
qed

lemma process_lines_keeps:
  assumes "reflp R" "transp R" "callbacks_keep R cb"
  shows "R s (snd (process_lines rt cb ls s))"
proof (induction ls arbitrary: s)
  case Nil
  then show ?case using assms(1) by (simp add: reflp_def)
next
  case (Cons l ls)
  obtain f s1 where p: "process_line rt cb l s = (f, s1)" by (cases "process_line rt cb l s")
  have 1: "R s s1" using process_line_keeps[OF assms, of s rt l] p by simp
  show ?case
  proof (cases f)
    case Next
    have "R s1 (snd (process_lines rt cb ls s1))" by (rule Cons.IH)
    with 1 assms(2) have "R s (snd (process_lines rt cb ls s1))" by (auto elim: transpE)
    with p Next show ?thesis by simp
  qed (use p 1 in simp_all)
qed

lemma read_loop_keeps:
  assumes "reflp R" "transp R" "callbacks_keep R cb"
  shows "R s (snd (read_loop rt cb remainder cs fin s))"
proof (induction cs arbitrary: remainder s)
  case Nil
  then show ?case using assms(1) by (cases fin) (simp_all add: reflp_def)
next
  case (Cons c cs)
  let ?ls = "butlast (split_on CHR 0x0A (remainder @ c))"
  obtain f s1 where p: "process_lines rt cb ?ls s = (f, s1)" by (cases "process_lines rt cb ?ls s")
  have 1: "R s s1" using process_lines_keeps[OF assms, of s rt ?ls] p by simp
  show ?case
  proof (cases f)
    case Next
    have "R s1 (snd (read_loop rt cb (last (split_on CHR 0x0A (remainder @ c))) cs fin s1))"
      by (rule Cons.IH)
    with 1 assms(2) have "R s (snd (read_loop rt cb (last (split_on CHR 0x0A (remainder @ c))) cs fin s1))"
      by (auto elim: transpE)
    with p Next show ?thesis by simp
  qed (use p 1 in simp_all)
qed

lemma consumeStream_keeps:
  assumes "reflp R" "transp R" "callbacks_keep R cb"
  shows "R s (snd (consumeStream rt resp cb s))"
proof (cases "resp_body resp")
  case None
  then show ?thesis using assms(1) by (simp add: consumeStream_def reflp_def)
next
  case (Some b)
  then show ?thesis
    using read_loop_keeps[OF assms, of s rt "[]" "chunks b" "ending b"]
    by (simp add: consumeStream_def)
qed

subsection \<open>The transcript only grows\<close>

definition grows :: "worker \<Rightarrow> worker \<Rightarrow> bool" where
  "grows w w' = (prefix (items w) (items w') \<and> prefix (requests w) (requests w'))"

lemma grows_refl [simp]: "grows w w"
  by (simp add: grows_def)

lemma grows_trans: "grows a b \<Longrightarrow> grows b c \<Longrightarrow> grows a c"
  by (auto simp: grows_def intro: prefix_order.trans)

lemma reflp_grows: "reflp grows"
  by (simp add: reflp_def)

lemma transp_grows: "transp grows"
  by (auto simp: transp_def intro: grows_trans)

lemma grows_same: "items w' = items w \<Longrightarrow> requests w' = requests w \<Longrightarrow> grows w w'"
  by (simp add: grows_def)

lemma grows_display [simp]:
  "grows w (appendLine t w)" "grows w (updateStreaming t w)" "grows w (clearStreaming w)"
  by (simp_all add: grows_def appendLine_def updateStreaming_def clearStreaming_def)

lemma display_fields [simp]:
  "items (appendLine t w) = items w" "requests (appendLine t w) = requests w"
  "items (updateStreaming t w) = items w" "requests (updateStreaming t w) = requests w"
  "items (clearStreaming w) = items w" "requests (clearStreaming w) = requests w"
  by (simp_all add: appendLine_def updateStreaming_def clearStreaming_def)

lemma recordHistory_fields [simp]:
  "items (snd (recordHistory sh r t x w)) = items w"
  "requests (snd (recordHistory sh r t x w)) = requests w"
  by (simp_all add: recordHistory_def split: option.splits)

lemma keeps_recordHistory: "keeps grows (recordHistory sh r t x)"
  by (simp add: keeps_def grows_same)

lemma keeps_recordHistoryFromItem: "keeps grows (recordHistoryFromItem sh item)"
  unfolding keeps_def
proof
  fix w
  show "grows w (snd (recordHistoryFromItem sh item w))"
    by (cases "history_text sh item") (simp_all add: recordHistoryFromItem_def grows_same)
qed

lemma maybeCaptureAppId_fields [simp]:
  "items (maybeCaptureAppId its w) = items w" "requests (maybeCaptureAppId its w) = requests w"
  by (simp_all add: maybeCaptureAppId_def split: option.splits)

lemma keeps_text_delta: "keeps grows (text_delta d)"
  by (simp add: keeps_def text_delta_def)

lemma keeps_on_conversation_id: "keeps grows (on_conversation_id c)"
  by (simp add: keeps_def on_conversation_id_def grows_same)

lemma and_then_grows:
  assumes "keeps grows f" "keeps grows g" "grows w w1"
  shows "grows w (snd (and_then f g w1))"
proof -
  have "grows w1 (snd (and_then f g w1))"
    using keeps_and_then[OF transp_grows assms(1,2)] by (simp add: keeps_def)
  with assms(3) show ?thesis by (rule grows_trans)
qed

lemma item_round_grows:
  assumes "\<forall>item. keeps grows (htc item)"
  shows "prefix (items w @ [item]) (items (snd (item_round special htc sh item w))) \<and>
         prefix (requests w) (requests (snd (item_round special htc sh item w)))"
proof -
  let ?w1 = "w\<lparr>items := items w @ [item]\<rparr>"
  have base: "\<And>w'. grows ?w1 w' \<Longrightarrow>
     prefix (items w @ [item]) (items w') \<and> prefix (requests w) (requests w')"
    by (simp add: grows_def)
  have "grows ?w1 (snd (item_round special htc sh item w))"
  proof (cases "item = JNull")
    case True
    then show ?thesis by (simp add: item_round_def)
  next
    case False
    show ?thesis
    proof (cases "formatItem sh item")
      case (Inl e)
      with False show ?thesis by (simp add: item_round_def)
    next
      case (Inr formatted)
      let ?sp = "if special \<and> string_field item ''type'' = Some ''message'' \<and>
                    string_field item ''role'' = Some ''assistant''
                 then shown_format formatted else None"
      show ?thesis
      proof (cases ?sp)
        case (Some f)
        with False Inr show ?thesis by (simp add: item_round_def Let_def)
      next
        case None
        let ?w2 = "case shown_format formatted of Some f \<Rightarrow> appendLine f ?w1 | None \<Rightarrow> ?w1"
        have w2: "grows ?w1 ?w2" by (cases "shown_format formatted") simp_all
        have k: "keeps grows (if string_field item ''type'' = Some ''tool_call'' then htc item else skip)"
          using assms by (simp add: keeps_skip reflp_grows)
        have "grows ?w1 (snd (and_then (if string_field item ''type'' = Some ''tool_call'' then htc item else skip)
                        (recordHistoryFromItem sh item) ?w2))"
          by (rule and_then_grows[OF k keeps_recordHistoryFromItem w2])
        with False Inr None show ?thesis by (simp add: item_round_def Let_def)
      qed
    qed
  qed
  then show ?thesis by (rule base)
qed

lemma keeps_item_round:
  assumes "\<forall>item. keeps grows (htc item)"
  shows "keeps grows (item_round special htc sh item)"
  unfolding keeps_def grows_def
  using item_round_grows[OF assms, of _ item special sh]
  by (auto dest: append_prefixD)

lemma keeps_item_loop:
  assumes "\<forall>item. keeps grows (htc item)"
  shows "keeps grows (item_loop special htc sh its)"
  unfolding keeps_def
proof
  fix w
  show "grows w (snd (item_loop special htc sh its w))"
  proof (induction its arbitrary: w)
    case Nil
    then show ?case by simp
  next
    case (Cons item its)
    obtain sg w1 where r: "item_round special htc sh item w = (sg, w1)"
      by (cases "item_round special htc sh item w")
    have 1: "grows w w1"
      using keeps_item_round[OF assms, of special sh item] r by (auto simp: keeps_def dest: spec[of _ w])
    show ?case
    proof (cases sg)
      case Returned
      with r 1 Cons.IH[of w1] show ?thesis by (auto intro: grows_trans)
    qed (use r 1 in simp_all)
  qed
qed

lemma keeps_on_items:
  assumes "\<forall>item. keeps grows (htc item)"
  shows "keeps grows (on_items special htc sh its)"
  unfolding keeps_def
proof
  fix w
  have "grows w (maybeCaptureAppId its w)" by (simp add: grows_same)
  moreover have "grows (maybeCaptureAppId its w) (snd (on_items special htc sh its w))"
    using keeps_item_loop[OF assms, of special sh its] by (simp add: keeps_def on_items_def)
  ultimately show "grows w (snd (on_items special htc sh its w))" by (rule grows_trans)
qed

lemma callbacks_keep_worker:
  assumes "\<forall>item. keeps grows (htc item)"
  shows "callbacks_keep grows (message_callbacks htc sh)" "callbacks_keep grows (tool_callbacks htc sh)"
  using keeps_on_items[OF assms]
  by (simp_all add: callbacks_keep_def message_callbacks_def tool_callbacks_def keeps_text_delta
      keeps_on_conversation_id)

lemma stream_failed_fields [simp]:
  "items (stream_failed e w) = items w" "requests (stream_failed e w) = requests w"
  by (simp_all add: stream_failed_def)

lemma flush_streaming_fields [simp]:
  "items (snd (flush_streaming sh w)) = items w" "requests (snd (flush_streaming sh w)) = requests w"
  by (simp_all add: flush_streaming_def)

lemma finish_stream_fields [simp]:
  "items (snd (finish_stream sh (r, w))) = items w"
  "requests (snd (finish_stream sh (r, w))) = requests w"
proof -
  obtain sg w1 where f: "flush_streaming sh w = (sg, w1)" by (cases "flush_streaming sh w")
  have "items w1 = items w" "requests w1 = requests w"
    using flush_streaming_fields[of sh w] f by simp_all
  then show "items (snd (finish_stream sh (r, w))) = items w"
    "requests (snd (finish_stream sh (r, w))) = requests w"
    using f by (cases r; cases sg; simp add: finish_stream_def)+
qed

lemma finish_consume_grows:
  assumes "\<forall>item. keeps grows (htc item)" "cb = message_callbacks htc sh \<or> cb = tool_callbacks htc sh"
  shows "grows w (snd (finish_stream sh (consumeStream rt resp cb w)))"
proof -
  obtain r w1 where c: "consumeStream rt resp cb w = (r, w1)" by (cases "consumeStream rt resp cb w")
  have "callbacks_keep grows cb" using callbacks_keep_worker[OF assms(1)] assms(2) by blast
  then have "grows w w1"
    using consumeStream_keeps[OF reflp_grows transp_grows, of cb w rt resp] c by simp
  moreover have "grows w1 (snd (finish_stream sh (r, w1)))" by (simp add: grows_same)
  ultimately show ?thesis using c by (auto intro: grows_trans)
qed

definition started :: "shell \<Rightarrow> string \<Rightarrow> worker \<Rightarrow> worker" where
  "started sh text w =
     clearStreaming (sent (snd (recordHistory sh ''user'' ''message'' text (asked sh text w))))"

lemma keeps_sendToolResult_with:
  assumes "\<forall>item. keeps grows (htc item)"
  shows "keeps grows (sendToolResult_with htc sh out)"
  unfolding keeps_def
proof
  fix w :: worker
  let ?w1 = "w\<lparr>items := items w @ [out]\<rparr>"
  let ?body = "tool_result_body ?w1 out"
  let ?w2 = "w\<lparr>items := items w @ [out], requests := requests w @ [?body]\<rparr>"
  have g1: "grows w ?w1" by (simp add: grows_def)
  have g2: "grows w ?w2" by (simp add: grows_def)
  have g3: "grows w (appendLine t ?w2)" for t
    using g2 by (simp add: grows_def)
  have g4: "grows w (snd (finish_stream sh (consumeStream rt resp (tool_callbacks htc sh) ?w2)))" for rt resp
    using finish_consume_grows[OF assms, of "tool_callbacks htc sh" sh ?w2 rt resp] g2
    by (auto intro: grows_trans)
  show "grows w (snd (sendToolResult_with htc sh out w))"
  proof (cases "chatRequest sh (length (requests w)) ?body")
    case (Inl e)
    then show ?thesis using g1 g2 by (simp add: sendToolResult_with_def)
  next
    case (Inr resp)
    then show ?thesis using g1 g2 g3 g4 by (simp add: sendToolResult_with_def)
  qed
qed

lemma run_tool_fields:
  "run_tool sh tok app tc w = (r, w1) \<Longrightarrow> \<exists>b. w1 = w\<lparr>box := b\<rparr>"
  by (auto simp: run_tool_def split: prod.splits)

lemma local_tool_returns: "\<exists>res b1. local_tool sh tok app tc b = (Inr res, b1)"
proof (cases "string_field tc ''name''")
  case None
  obtain x b1 where "getAllowedTools (sh_platform sh) (baseUrl sh) tok b = (x, b1)"
    by (cases "getAllowedTools (sh_platform sh) (baseUrl sh) tok b")
  with None show ?thesis by (cases x) (simp_all add: local_tool_def)
next
  case (Some n)
  let ?call = "\<lparr>call_name = n, call_args = Some (tool_args tc)\<rparr>"
  let ?ctx = "\<lparr>rootDir = cwd sh, ctx_baseUrl = baseUrl sh, ctx_token = tok, ctx_appId = app\<rparr>"
  obtain x b1 where t: "executeLocalTool_try (sh_platform sh) ?call ?ctx b = (x, b1)"
    by (cases "executeLocalTool_try (sh_platform sh) ?call ?ctx b")
  with Some show ?thesis
    by (cases x) (simp_all add: local_tool_def executeLocalTool_def)
qed

lemma run_tool_returns: "\<exists>res w1. run_tool sh tok app tc w = (Inr res, w1)"
  using local_tool_returns[of sh tok app tc "box w"] by (auto simp: run_tool_def)

lemma keeps_handleToolCall_with:
  assumes "\<forall>out. keeps grows (str out)"
  shows "keeps grows (handleToolCall_with str sh tc)"
  unfolding keeps_def
proof
  fix w
  show "grows w (snd (handleToolCall_with str sh tc w))"
  proof (cases "token w")
    case None
    then show ?thesis by (simp add: handleToolCall_with_def)
  next
    case (Some tok)
    show ?thesis
    proof (cases "nonempty (appId w)")
      case None
      with Some show ?thesis by (simp add: handleToolCall_with_def)
    next
      case app: (Some app)
      obtain r w1 where rt: "run_tool sh tok app tc w = (r, w1)" by (cases "run_tool sh tok app tc w")
      then obtain b where w1: "w1 = w\<lparr>box := b\<rparr>" using run_tool_fields by blast
      have g1: "grows w w1" using w1 by (simp add: grows_def)
      have g2: "grows w (appendLine t w1)" for t using w1 by (simp add: grows_def)
      have g3: "grows w (snd (and_then (recordHistory sh a b' c) (str out) (appendLine t w1)))" for a b' c out t
        using and_then_grows[OF keeps_recordHistory _ g2] assms by blast
      show ?thesis
        using Some app rt g1 g3 by (cases r) (simp_all add: handleToolCall_with_def)
    qed
  qed
qed

lemma keeps_handleToolCall: "keeps grows (handleToolCall n sh tc)"
proof (induction n arbitrary: tc)
  case 0
  then show ?case by (simp add: keeps_def)
next
  case (Suc n)
  have "\<forall>out. keeps grows (sendToolResult_with (handleToolCall n sh) sh out)"
    using keeps_sendToolResult_with[of "handleToolCall n sh" sh] Suc.IH by blast
  then show ?case by (simp add: keeps_handleToolCall_with)
qed

lemma sendToolResult_with_sent:
  assumes "\<forall>item. keeps grows (htc item)"
    and "token w = Some tok" "chatMode w = Builder" "nonempty (conversationId w) = Some cid"
    and "execution_mode w = Local"
  shows "prefix (items w @ [out]) (items (snd (sendToolResult_with htc sh out w))) \<and>
         prefix (requests w @ [tool_result_body (w\<lparr>items := items w @ [out]\<rparr>) out])
                (requests (snd (sendToolResult_with htc sh out w)))"
proof -
  let ?w1 = "w\<lparr>items := items w @ [out]\<rparr>"
  let ?body = "tool_result_body ?w1 out"
  let ?w2 = "w\<lparr>items := items w @ [out], requests := requests w @ [?body]\<rparr>"
  have base: "grows ?w2 w' \<Longrightarrow>
     prefix (items w @ [out]) (items w') \<and> prefix (requests w @ [?body]) (requests w')" for w'
    by (simp add: grows_def)
  have "grows ?w2 (snd (sendToolResult_with htc sh out w))"
  proof (cases "chatRequest sh (length (requests w)) ?body")
    case (Inl e)
    with assms(2-5) show ?thesis by (simp add: sendToolResult_with_def)
  next
    case (Inr resp)
    show ?thesis
    proof (cases "resp_ok resp")
      case True
      with Inr assms(2-5) show ?thesis
        using finish_consume_grows[OF assms(1), of "tool_callbacks htc sh" sh ?w2 "sh_runtime sh" resp]
        by (simp add: sendToolResult_with_def)
    next
      case False
      with Inr assms(2-5) show ?thesis by (simp add: sendToolResult_with_def)
    qed
  qed
  then show ?thesis by (rule base)
qed

lemma sendToolResult_with_dropped:
  assumes "token w = Some tok" "chatMode w = Builder" "nonempty (conversationId w) = None"
  shows "sendToolResult_with htc sh out w =
           (Returned, appendLine ''tool_result error: missing conversation id'' w)"
  using assms by (simp add: sendToolResult_with_def)

subsection \<open>Claims about the session driver\<close>

lemma box_update_fields [simp]:
  "token (w\<lparr>box := b\<rparr>) = token w" "execution_mode (w\<lparr>box := b\<rparr>) = execution_mode w"
  by (simp_all add: token_def execution_mode_def)

lemma appendLine_fields [simp]:
  "token (appendLine t w) = token w" "execution_mode (appendLine t w) = execution_mode w"
  "chatMode (appendLine t w) = chatMode w" "conversationId (appendLine t w) = conversationId w"
  "appId (appendLine t w) = appId w" "history (appendLine t w) = history w"
  by (simp_all add: token_def execution_mode_def appendLine_def)

lemma history_update_fields [simp]:
  "token (w\<lparr>history := h\<rparr>) = token w" "execution_mode (w\<lparr>history := h\<rparr>) = execution_mode w"
  by (simp_all add: token_def execution_mode_def)

lemma tool_result_body_fields [simp]:
  "b_action (tool_result_body w out) = Some ''tool_result''" "b_input (tool_result_body w out) = items w"
  by (simp_all add: tool_result_body_def)

text \<open>
  \<open>tool_pending\<close> is the worker when \<open>handleToolCall\<close>, called from the loop of
  \<open>onItems\<close> for a \<open>tool_call\<close> item, waits for the tool: the item is pushed and its
  line is shown. \<open>answered\<close> is the worker when the follow-up request leaves: the tool
  has run, its line is shown, its history record is written, the one \<open>tool_output\<close>
  item stands directly after the call, and the request carries that transcript.
\<close>

definition tool_pending :: "json \<Rightarrow> string option \<Rightarrow> worker \<Rightarrow> worker" where
  "tool_pending item formatted w =
     (case shown_format formatted of
        Some f \<Rightarrow> appendLine f (w\<lparr>items := items w @ [item]\<rparr>)
      | None \<Rightarrow> w\<lparr>items := items w @ [item]\<rparr>)"



lemma tool_pending_fields [simp]:
  "token (tool_pending item formatted w) = token w"
  "chatMode (tool_pending item formatted w) = chatMode w"
  "execution_mode (tool_pending item formatted w) = execution_mode w"
  "appId (tool_pending item formatted w) = appId w"
  "conversationId (tool_pending item formatted w) = conversationId w"
  "box (tool_pending item formatted w) = box w"
  "history (tool_pending item formatted w) = history w"
  "requests (tool_pending item formatted w) = requests w"
  "items (tool_pending item formatted w) = items w @ [item]"
  by (simp_all add: tool_pending_def token_def execution_mode_def appendLine_def split: option.splits)

lemma items_update_fields [simp]:
  "token (w\<lparr>items := x\<rparr>) = token w" "execution_mode (w\<lparr>items := x\<rparr>) = execution_mode w"
  by (simp_all add: token_def execution_mode_def)




lemma message_body_recorded [simp]:
  "message_body (snd (recordHistory sh r t x w)) = message_body w"
  by (simp add: recordHistory_def message_body_def execution_mode_def split: option.splits)

text \<open>
  Claim C6, as the code has it. When the stream of a turn raises (a failed read, a
  malformed delta), \<open>sendMessage\<close> returns normally; next to the state the stream had
  reached it adds exactly one line, \<open>stream error: message\<close>, and clears the live
  text: the text accumulated so far is dropped, not shown as an assistant message. The
  items appended before the failure stay, after the user item of the turn.
\<close>

theorem failed_stream_reported:
  assumes "token w = Some tok" and "saveHistory sh (length (history w)) = None"
    and "chatRequest sh (length (requests w)) (message_body (asked sh text w)) = Inr resp"
    and "resp_ok resp"
    and "consumeStream (sh_runtime sh) resp (message_callbacks (handleToolCall n sh) sh)
           (started sh text w) = (Raised e, w')"
  shows "sendMessage n sh text w =
           (Returned,
            w'\<lparr>shown := shown w' @ [''stream error: '' @ error_message e ''stream failed''],
               streamingText := [], streams := streams w' @ [[]]\<rparr>) \<and>
         prefix (items w @ [user_item sh text]) (items w')"
proof -
  define w1 where "w1 = (asked sh text w)\<lparr>history := history w @ [(''user'', ''message'', text)]\<rparr>"
  have rec: "recordHistory sh ''user'' ''message'' text (asked sh text w) = (Returned, w1)"
    using assms(2) by (simp add: recordHistory_def w1_def asked_def appendLine_def)
  have mb: "message_body w1 = message_body (asked sh text w)"
    using message_body_recorded[of sh "''user''" "''message''" "text" "asked sh text w"] rec by simp
  have rq: "requests w1 = requests w" by (simp add: w1_def asked_def)
  have st: "started sh text w = clearStreaming (sent w1)"
    using rec by (simp add: started_def)
  have run: "sendMessage n sh text w =
               finish_stream sh (consumeStream (sh_runtime sh) resp
                 (message_callbacks (handleToolCall n sh) sh) (clearStreaming (sent w1)))"
    using assms(1,3,4) rec mb rq by (simp add: sendMessage_def sendMessage_with_def)
  have 1: "sendMessage n sh text w =
           (Returned,
            w'\<lparr>shown := shown w' @ [''stream error: '' @ error_message e ''stream failed''],
               streamingText := [], streams := streams w' @ [[]]\<rparr>)"
    using run assms(5) st
    by (simp add: finish_stream_def stream_failed_def clearStreaming_def appendLine_def)
  have k: "callbacks_keep grows (message_callbacks (handleToolCall n sh) sh)"
    by (rule callbacks_keep_worker) (simp add: keeps_handleToolCall)
  have "grows (started sh text w) w'"
    using consumeStream_keeps[OF reflp_grows transp_grows k, of "started sh text w" "sh_runtime sh" resp]
      assms(5) by simp
  moreover have "items (started sh text w) = items w @ [user_item sh text]"
    by (simp add: st w1_def sent_def asked_def)
  ultimately have 2: "prefix (items w @ [user_item sh text]) (items w')"
    by (simp add: grows_def)
  from 1 2 show ?thesis by simp
qed

text \<open>
  A session for the examples: a logged-in worker in builder mode with no app id, whose
  workspace holds one unread file. The text helpers are stand-ins that agree with the
  worker's own on the one item the examples show; the remote side is a function of the
  number of requests it has seen.
\<close>

definition demo_worker :: worker where
  "demo_worker =
     \<lparr>box = demo_state, items = [], conversationId = Some ''conv1'', appId = None,
      chatMode = Builder, loginState = Ready ''tok'', streamingText = [],
      cfg_executionMode = None, shown = [], streams = [], requests = [], history = []\<rparr>"

definition read_call :: json where
  "read_call = JObj [(''type'', JStr ''tool_call''), (''callId'', JStr ''c1''),
                     (''name'', JStr ''read_file''), (''args'', JObj [(''path'', JStr ''a.txt'')])]"

definition demo_frames :: "(string \<times> json) list" where
  \<open>demo_frames =
     [(''[{"type":"response_item","item":{"type":"tool_call","callId":"c1","name":"read_file","args":{"path":"a.txt"}}}]'',
       JArr [JObj [(''type'', JStr ''response_item''), (''item'', read_call)]])]\<close>

definition demo_format :: "json \<Rightarrow> exn + string option" where
  \<open>demo_format item =
     (if item = read_call then Inr (Some ''tool_call: read_file args={"path":"a.txt"}'')
      else if string_field item ''type'' = None then Inl (Error ''undefined is not an object'')
      else Inr None)\<close>

definition demo_shell :: "(nat \<Rightarrow> chat_body \<Rightarrow> exn + response) \<Rightarrow> shell" where
  "demo_shell remote =
     \<lparr>sh_platform = demo_platform, sh_runtime = demo_runtime demo_frames,
      baseUrl = ''https://api.example/'', cwd = ''/work/app'', chatRequest = remote,
      saveHistory = (\<lambda>k. None), formatItem = demo_format,
      formatCompact = (\<lambda>v. None), history_text = (\<lambda>item. Inr [])\<rparr>"

definition broken_remote :: "nat \<Rightarrow> chat_body \<Rightarrow> exn + response" where
  \<open>broken_remote k body =
     Inr (streamed [''0:"Hi"\<newline>'', ''0:" there"\<newline>''] (ReadFailed (Error ''socket closed'')))\<close>



lemmas worker_simps = sendMessage_def sendMessage_with_def token_def nonempty_def asked_def sent_def
  appendLine_def updateStreaming_def clearStreaming_def recordHistory_def message_body_def
  execution_mode_def user_item_def finish_stream_def flush_streaming_def stream_failed_def
  error_message_def message_callbacks_def tool_callbacks_def text_delta_def on_conversation_id_def
  request_error_def

lemmas stream_simps = consumeStream_def streamed_def demo_runtime_def table_parse_def
  string_literal_def process_line_def delta_line_def data_line_def data_frame_events_def
  starts_with_def trim_def is_ws_def call_opt_def skip_def and_then_def stop_check_def
  stopIfNeeded_def swallow_def

text \<open>
  Claim C6 at a concrete turn: two text deltas arrive, then the read fails. The worker
  shows the user line and the error line; the live text went through \<open>Hi\<close> and
  \<open>Hi there\<close> and was cleared, and no assistant line was shown or recorded.
\<close>

theorem partial_text_dropped:
  "sendMessage 1 (demo_shell broken_remote) ''hello'' demo_worker =
     (Returned,
      demo_worker\<lparr>items := [user_item (demo_shell broken_remote) ''hello''],
                   shown := [''user: hello'', ''stream error: socket closed''],
                   streams := [[], ''Hi'', ''Hi there'', []],
                   requests := [\<lparr>b_action = None,
                                  b_input = [user_item (demo_shell broken_remote) ''hello''],
                                  b_mode = Builder, b_executionMode = Some Local,
                                  b_conversationId = Some ''conv1'', b_appId = None,
                                  b_toolResult = None\<rparr>],
                   history := [(''user'', ''message'', ''hello'')]\<rparr>) \<and>
   ''assistant: Hi there'' \<notin> set (shown (snd (sendMessage 1 (demo_shell broken_remote) ''hello'' demo_worker)))"
  by (simp add: worker_simps stream_simps demo_shell_def broken_remote_def demo_worker_def)



theorem failed_stream_reported_witness:
  \<open>token demo_worker = Some ''tok'' \<and>
   saveHistory (demo_shell broken_remote) (length (history demo_worker)) = None \<and>
   resp_ok (streamed [''0:"Hi"\<newline>'', ''0:" there"\<newline>''] (ReadFailed (Error ''socket closed''))) \<and>
   sendMessage 1 (demo_shell broken_remote) ''hello'' demo_worker =
     (Returned,
      demo_worker\<lparr>items := [user_item (demo_shell broken_remote) ''hello''],
                   shown := [''user: hello'', ''stream error: socket closed''],
                   streams := [[], ''Hi'', ''Hi there'', []],
                   requests := [message_body (asked (demo_shell broken_remote) ''hello'' demo_worker)],
                   history := [(''user'', ''message'', ''hello'')]\<rparr>)\<close>
proof -
  let ?sh = "demo_shell broken_remote"
  let ?resp = \<open>streamed [''0:"Hi"\<newline>'', ''0:" there"\<newline>''] (ReadFailed (Error ''socket closed''))\<close>
  let ?w' = "demo_worker\<lparr>items := [user_item ?sh ''hello''], streamingText := ''Hi there'',
                   shown := [''user: hello''], streams := [[], ''Hi'', ''Hi there''],
                   requests := [message_body (asked ?sh ''hello'' demo_worker)],
                   history := [(''user'', ''message'', ''hello'')]\<rparr>"
  have t: "token demo_worker = Some ''tok''"
    by (simp add: token_def nonempty_def demo_worker_def)
  have h: "saveHistory ?sh (length (history demo_worker)) = None"
    by (simp add: demo_shell_def)
  have c: "chatRequest ?sh (length (requests demo_worker)) (message_body (asked ?sh ''hello'' demo_worker))
             = Inr ?resp"
    by (simp add: demo_shell_def broken_remote_def)
  have k: "resp_ok ?resp" by (simp add: streamed_def)
  have s: "consumeStream (sh_runtime ?sh) ?resp (message_callbacks (handleToolCall 1 ?sh) ?sh)
             (started ?sh ''hello'' demo_worker) = (Raised (Error ''socket closed''), ?w')"
    by (simp add: started_def worker_simps stream_simps demo_shell_def demo_worker_def)
  from failed_stream_reported[OF t h c k s] t h k show ?thesis
    by (simp add: error_message_def demo_worker_def)
qed








text \<open>
  \<open>sendMessage\<close> up to its request, for a second message that arrives while another
  handler is suspended: the user item is pushed, shown and recorded, and the transcript
  as it stands goes upstream.
\<close>

definition second_input :: "shell \<Rightarrow> string \<Rightarrow> worker \<Rightarrow> worker" where
  "second_input sh text w = sent (snd (recordHistory sh ''user'' ''message'' text (asked sh text w)))"

lemma sendMessage_with_requested:
  assumes "token w = Some tok" and "saveHistory sh (length (history w)) = None"
    and "chatRequest sh (length (requests w)) (message_body (asked sh text w)) = Inl e"
  shows "sendMessage_with htc sh text w = (Threw e, second_input sh text w)"
proof -
  define w1 where "w1 = (asked sh text w)\<lparr>history := history w @ [(''user'', ''message'', text)]\<rparr>"
  have rec: "recordHistory sh ''user'' ''message'' text (asked sh text w) = (Returned, w1)"
    using assms(2) by (simp add: recordHistory_def w1_def asked_def appendLine_def)
  have mb: "message_body w1 = message_body (asked sh text w)"
    using message_body_recorded[of sh "''user''" "''message''" "text" "asked sh text w"] rec by simp
  have rq: "requests w1 = requests w" by (simp add: w1_def asked_def)
  show ?thesis
    using assms(1,3) rec mb rq by (simp add: sendMessage_with_def second_input_def)
qed





end
